theory Spec2Isabelle
  imports Main "HOL-Library.Word"
begin

unbundle bit_operations_syntax

section \<open>Buffers\<close>

text \<open>
  A Node \<open>Buffer\<close> is a list of bytes. A store past the end is ignored, which is what
  list update does. A read past the end answers \<open>undefined\<close>: \<open>rdo\<close> keeps it as
  \<open>None\<close> for the places that compare the raw result, \<open>rd\<close> gives the \<open>0\<close> that
  every bitwise operator and every store into a Buffer turns it into.
\<close>

type_synonym byte = "8 word"
type_synonym buffer = "byte list"

definition rdo :: "buffer \<Rightarrow> nat \<Rightarrow> byte option" where
  "rdo b i = (if i < length b then Some (b ! i) else None)"

definition rd :: "buffer \<Rightarrow> nat \<Rightarrow> byte" where
  "rd b i = (if i < length b then b ! i else 0)"

text \<open>\<open>1 << slot\<close>, cut to the byte it is combined with (the shift count is taken mod 32).\<close>

definition bitOf :: "nat \<Rightarrow> byte" where
  "bitOf slot = push_bit (slot mod 32) 1"

text \<open>
  A buffer argument of a copy is a reference: \<open>This\<close> when the caller passes the very
  buffer that is written (as \<open>vacate\<close> does), \<open>Other b\<close> for a distinct object.
\<close>

datatype bufref = This | Other buffer

fun srcRead :: "bufref \<Rightarrow> buffer \<Rightarrow> nat \<Rightarrow> byte" where
  "srcRead This t i = rd t i"
| "srcRead (Other s) t i = rd s i"

section \<open>Hash (tabulation hash)\<close>

text \<open>
  \<open>TABLE\<close> is the \<open>Int32Array\<close> of \<open>64 * 256 * 2\<close> random words and \<open>BUFFER_MAX\<close> is
  \<open>buffer.kMaxLength\<close>; both are fixed when the process starts, so they are parameters.
  \<open>Hash\<close> leaves its two results in the globals \<open>H1\<close> and \<open>H2\<close>; every caller reads them
  at once, so the model returns the pair.
\<close>

record env =
  TABLE :: "nat \<Rightarrow> 32 word"
  BUFFER_MAX :: nat

text \<open>\<open>TABLE[(j << 8) + key[p]]\<close> inside an xor: an index built from \<open>undefined\<close> reads \<open>undefined\<close>, xor-ed as 0.\<close>

definition tab :: "env \<Rightarrow> nat \<Rightarrow> buffer \<Rightarrow> nat \<Rightarrow> 32 word" where
  "tab E j key p = (case rdo key p of None \<Rightarrow> 0 | Some b \<Rightarrow> TABLE E (push_bit 8 j + unat b))"

function HashLoop :: "env \<Rightarrow> buffer \<Rightarrow> nat \<Rightarrow> nat \<Rightarrow> nat \<Rightarrow> 32 word \<Rightarrow> 32 word \<Rightarrow> 32 word \<times> 32 word" where
  "HashLoop E key keyOffset keySize i h1 h2 =
     (if i < keySize then
        HashLoop E key keyOffset keySize (i + 4)
          (h1 XOR (tab E (push_bit 1 i + 0) key (keyOffset + i + 0) XOR
                   tab E (push_bit 1 i + 1) key (keyOffset + i + 1) XOR
                   tab E (push_bit 1 i + 2) key (keyOffset + i + 2) XOR
                   tab E (push_bit 1 i + 3) key (keyOffset + i + 3)))
          (h2 XOR (tab E (push_bit 1 i + 4) key (keyOffset + i + 0) XOR
                   tab E (push_bit 1 i + 5) key (keyOffset + i + 1) XOR
                   tab E (push_bit 1 i + 6) key (keyOffset + i + 2) XOR
                   tab E (push_bit 1 i + 7) key (keyOffset + i + 3)))
      else (h1, h2))"
  by pat_completeness auto
termination
  by (relation "measure (\<lambda>(E, key, keyOffset, keySize, i, h1, h2). keySize - i)") auto

definition Hash :: "env \<Rightarrow> buffer \<Rightarrow> nat \<Rightarrow> nat \<Rightarrow> 32 word \<times> 32 word" where
  "Hash E key keyOffset keySize = HashLoop E key keyOffset keySize 0 0 0"

section \<open>SLOT lookup table\<close>

text \<open>\<open>for (slot = 0; slot < 8; slot++) if (P slot) break;\<close> leaves the first slot with \<open>P\<close>, or 8.\<close>

definition firstSlot :: "(nat \<Rightarrow> bool) \<Rightarrow> nat" where
  "firstSlot P = length (takeWhile (\<lambda>slot. \<not> P slot) [0..<8])"

definition SLOT :: "byte \<Rightarrow> nat" where
  "SLOT index = firstSlot (\<lambda>slot. index AND bitOf slot = 0)"

section \<open>Copy dispatch\<close>

fun copyN :: "nat \<Rightarrow> bufref \<Rightarrow> nat \<Rightarrow> buffer \<Rightarrow> nat \<Rightarrow> buffer" where
  "copyN 0 s sO t tO = t"
| "copyN (Suc n) s sO t tO = copyN n s (Suc sO) (t[tO := srcRead s t sO]) (Suc tO)"

text \<open>\<open>groups\<close> rounds of \<open>w\<close> unrolled byte stores, moving both offsets on by \<open>w\<close>.\<close>

fun copyGroups :: "nat \<Rightarrow> nat \<Rightarrow> bufref \<Rightarrow> nat \<Rightarrow> buffer \<Rightarrow> nat \<Rightarrow> buffer" where
  "copyGroups w 0 s sO t tO = t"
| "copyGroups w (Suc groups) s sO t tO = copyGroups w groups s (sO + w) (copyN w s sO t tO) (tO + w)"

text \<open>\<open>s.copy(t, tO, sO, sO + size)\<close>: the source bytes are read before any is written.\<close>

fun storeAll :: "byte list \<Rightarrow> buffer \<Rightarrow> nat \<Rightarrow> buffer" where
  "storeAll [] t tO = t"
| "storeAll (x # xs) t tO = storeAll xs (t[tO := x]) (Suc tO)"

definition bufferCopy :: "bufref \<Rightarrow> nat \<Rightarrow> buffer \<Rightarrow> nat \<Rightarrow> nat \<Rightarrow> buffer" where
  "bufferCopy s sO t tO size' =
     storeAll (take size' (drop sO (case s of This \<Rightarrow> t | Other b \<Rightarrow> b))) t tO"

datatype copier =
    copy00 | copy04 | copy08 | copy16 | copy20 | copy32 | copy48 | copy64 | copy128 | copy256
  | copyKeyGeneric | copyValueGeneric

definition copy :: "nat \<Rightarrow> copier option" where
  "copy size' =
     (if size' = 0 then Some copy00 else if size' = 4 then Some copy04
      else if size' = 8 then Some copy08 else if size' = 16 then Some copy16
      else if size' = 20 then Some copy20 else if size' = 32 then Some copy32
      else if size' = 48 then Some copy48 else if size' = 64 then Some copy64
      else if size' = 128 then Some copy128 else if size' = 256 then Some copy256
      else None)"

text \<open>
  \<open>runCopy keySize valueSize c s sO t tO\<close> runs the routine \<open>c\<close>; the two generic
  routines read the size from the shard's \<open>keySize\<close> and \<open>valueSize\<close>.
\<close>

fun runCopy :: "nat \<Rightarrow> nat \<Rightarrow> copier \<Rightarrow> bufref \<Rightarrow> nat \<Rightarrow> buffer \<Rightarrow> nat \<Rightarrow> buffer" where
  "runCopy ks vs copy00 s sO t tO = t"
| "runCopy ks vs copy04 s sO t tO = copyN 4 s sO t tO"
| "runCopy ks vs copy08 s sO t tO = copyN 8 s sO t tO"
| "runCopy ks vs copy16 s sO t tO = copyN 16 s sO t tO"
| "runCopy ks vs copy20 s sO t tO = copyN 20 s sO t tO"
| "runCopy ks vs copy32 s sO t tO = copyN 32 s sO t tO"
| "runCopy ks vs copy48 s sO t tO =
     copyN 16 s (sO + 32) (copyN 32 s (sO + 0) t (tO + 0)) (tO + 32)"
| "runCopy ks vs copy64 s sO t tO =
     copyN 32 s (sO + 32) (copyN 32 s (sO + 0) t (tO + 0)) (tO + 32)"
| "runCopy ks vs copy128 s sO t tO = copyGroups 32 4 s sO t tO"
| "runCopy ks vs copy256 s sO t tO = copyGroups 32 8 s sO t tO"
| "runCopy ks vs copyKeyGeneric s sO t tO =
     (let groups = drop_bit 2 ks
      in copyN (ks - 4 * groups) s (sO + 4 * groups)
           (copyGroups 4 groups s sO t tO) (tO + 4 * groups))"
| "runCopy ks vs copyValueGeneric s sO t tO =
     (if vs < 128 then
        (let groups = drop_bit 3 vs
         in copyN (vs - 8 * groups) s (sO + 8 * groups)
              (copyGroups 8 groups s sO t tO) (tO + 8 * groups))
      else bufferCopy s sO t tO vs)"

section \<open>Shard (class Table)\<close>

record Table =
  keySize :: nat
  valueSize :: nat
  bucket :: nat
  buckets :: nat
  copyKey :: copier
  copyValue :: copier
  mask :: nat
  buffer :: buffer

definition Table_new :: "nat \<Rightarrow> nat \<Rightarrow> nat \<Rightarrow> nat \<Rightarrow> Table" where
  "Table_new keySize' valueSize' bucket' buckets' =
     \<lparr> keySize = keySize', valueSize = valueSize', bucket = bucket', buckets = buckets',
       copyKey = (case copy keySize' of Some c \<Rightarrow> c | None \<Rightarrow> copyKeyGeneric),
       copyValue = (case copy valueSize' of Some c \<Rightarrow> c | None \<Rightarrow> copyValueGeneric),
       mask = buckets' - 1,
       buffer = replicate (bucket' * buckets') 0 \<rparr>"

definition keyOffset :: "Table \<Rightarrow> nat \<Rightarrow> nat \<Rightarrow> nat" where
  "keyOffset t bucket' slot = bucket' + 20 + (keySize t + valueSize t) * slot"

definition valueOffset :: "Table \<Rightarrow> nat \<Rightarrow> nat \<Rightarrow> nat" where
  "valueOffset t bucket' slot = bucket' + 20 + (keySize t + valueSize t) * slot + keySize t"

text \<open>The locals every operation starts with: \<open>tag\<close>, \<open>b1\<close>/\<open>b2\<close>, \<open>f1\<close> and \<open>f2\<close>.\<close>

definition tagOf :: "32 word \<Rightarrow> byte" where
  "tagOf h1 = ucast (signed_drop_bit 16 h1 AND 255)"

definition bucketOf :: "Table \<Rightarrow> 32 word \<Rightarrow> nat" where
  "bucketOf t h = unat (h AND word_of_nat (mask t)) * bucket t"

definition f1Of :: "byte \<Rightarrow> nat" where
  "f1Of tag = unat (drop_bit 4 tag AND 7)"

definition f2Of :: "byte \<Rightarrow> byte" where
  "f2Of tag = bitOf (unat (tag AND 7))"

definition copyKeyTo :: "Table \<Rightarrow> bufref \<Rightarrow> nat \<Rightarrow> buffer \<Rightarrow> nat \<Rightarrow> buffer" where
  "copyKeyTo t s sO b tO = runCopy (keySize t) (valueSize t) (copyKey t) s sO b tO"

definition copyValueTo :: "Table \<Rightarrow> bufref \<Rightarrow> nat \<Rightarrow> buffer \<Rightarrow> nat \<Rightarrow> buffer" where
  "copyValueTo t s sO b tO = runCopy (keySize t) (valueSize t) (copyValue t) s sO b tO"

definition assign :: "Table \<Rightarrow> nat \<Rightarrow> byte \<Rightarrow> nat \<Rightarrow> bufref \<Rightarrow> nat \<Rightarrow> bufref \<Rightarrow> nat \<Rightarrow> Table" where
  "assign t bucket' tag slot key keyOffset' value valueOffset' =
     (let b1 = (buffer t)[bucket' + 9 := rd (buffer t) (bucket' + 9) OR bitOf slot];
          b2 = b1[bucket' + 9 + 1 + slot := tag];
          b3 = copyKeyTo t key keyOffset' b2 (keyOffset t bucket' slot);
          b4 = copyValueTo t value valueOffset' b3 (valueOffset t bucket' slot)
      in t\<lparr>buffer := b4\<rparr>)"

fun equal :: "buffer \<Rightarrow> nat \<Rightarrow> buffer \<Rightarrow> nat \<Rightarrow> nat \<Rightarrow> bool" where
  "equal a aOffset b bOffset 0 = True"
| "equal a aOffset b bOffset (Suc size') =
     (if rdo a aOffset \<noteq> rdo b bOffset then False
      else equal a (Suc aOffset) b (Suc bOffset) size')"

definition scan :: "Table \<Rightarrow> nat \<Rightarrow> byte \<Rightarrow> buffer \<Rightarrow> nat \<Rightarrow> nat" where
  "scan t bucket' tag key keyOffset' =
     firstSlot (\<lambda>slot.
       rdo (buffer t) (bucket' + 9 + 1 + slot) = Some tag \<and>
       rd (buffer t) (bucket' + 9) AND bitOf slot \<noteq> 0 \<and>
       equal (buffer t) (keyOffset t bucket' slot) key keyOffset' (keySize t))"

text \<open>CLOCK: at most \<open>8 + 1\<close> ticks; the result is the slot and the buffer with hand and used bits moved on.\<close>

fun evictLoop :: "nat \<Rightarrow> buffer \<Rightarrow> nat \<Rightarrow> nat \<Rightarrow> nat \<times> buffer" where
  "evictLoop 0 b bucket' slot = (slot, b)"
| "evictLoop (Suc tick) b bucket' slot0 =
     (let slot = unat (rd b (bucket' + 18 + 1));
          b1 = b[bucket' + 18 + 1 := (rd b (bucket' + 18 + 1) + 1) AND 7]
      in if rd b1 (bucket' + 18) AND bitOf slot = 0 then (slot, b1)
         else evictLoop tick (b1[bucket' + 18 := rd b1 (bucket' + 18) AND NOT (bitOf slot)]) bucket' slot)"

definition evict :: "Table \<Rightarrow> nat \<Rightarrow> nat \<times> Table" where
  "evict t bucket' = (case evictLoop (8 + 1) (buffer t) bucket' 0 of (slot, b) \<Rightarrow> (slot, t\<lparr>buffer := b\<rparr>))"

definition Table_exist :: "Table \<Rightarrow> 32 word \<Rightarrow> 32 word \<Rightarrow> buffer \<Rightarrow> nat \<Rightarrow> nat" where
  "Table_exist t h1 h2 key keyOffset' =
     (let tag = tagOf h1; b1 = bucketOf t h1; b2 = bucketOf t h2; f1 = f1Of tag; f2 = f2Of tag
      in if rd (buffer t) (b1 + f1) AND f2 \<noteq> 0 then
           (let s1 = scan t b1 tag key keyOffset' in
            if s1 < 8 then 1
            else (let s2 = scan t b2 tag key keyOffset' in if s2 < 8 then 1 else 0))
         else 0)"

datatype error =
    ERROR_MAXIMUM_CAPACITY_EXCEEDED | ERROR_MODE | ERROR_SET
  | ERROR_COUNT_ZERO | ERROR_VACATE | ERROR_ASSERT | ERROR_TYPE

text \<open>
  \<open>ERROR_COUNT_ZERO\<close> is \<open>'count should not be 0'\<close>, \<open>ERROR_VACATE\<close> is
  \<open>'bucket !== b1 && bucket !== b2'\<close>, \<open>ERROR_ASSERT\<close> is any throw of \<open>Assert\<close>, and
  \<open>ERROR_TYPE\<close> is the \<open>TypeError\<close> of a method call on a missing shard.
\<close>

text \<open>The loop body of \<open>filterReset\<close> for one slot.\<close>

definition filterResetSlot :: "nat \<Rightarrow> nat \<Rightarrow> buffer \<Rightarrow> nat \<Rightarrow> buffer" where
  "filterResetSlot bucket' filter' b slot =
     (if rd b (bucket' + 9) AND bitOf slot \<noteq> 0 then
        (let tag = rd b (bucket' + 9 + 1 + slot); f1 = f1Of tag
         in if f1 = filter' then b[bucket' + filter' := rd b (bucket' + filter') OR f2Of tag] else b)
      else b)"

definition filterReset :: "Table \<Rightarrow> nat \<Rightarrow> nat \<Rightarrow> Table" where
  "filterReset t bucket' filter' =
     (if rdo (buffer t) (bucket' + 8) \<noteq> Some 0 then t
      else if rdo (buffer t) (bucket' + filter') = Some 0 then t
      else t\<lparr>buffer := foldl (filterResetSlot bucket' filter') ((buffer t)[bucket' + filter' := 0]) [0..<8]\<rparr>)"

definition filterIncrementSecondPosition :: "Table \<Rightarrow> nat \<Rightarrow> Table" where
  "filterIncrementSecondPosition t bucket' =
     (case rdo (buffer t) (bucket' + 8) of
        None \<Rightarrow> t
      | Some c \<Rightarrow> if c < 255 then t\<lparr>buffer := (buffer t)[bucket' + 8 := c + 1]\<rparr> else t)"

definition filterDecrementSecondPosition :: "Table \<Rightarrow> nat \<Rightarrow> error + Table" where
  "filterDecrementSecondPosition t bucket' =
     (case rdo (buffer t) (bucket' + 8) of
        None \<Rightarrow> Inr t
      | Some c \<Rightarrow>
          if c = 0 then Inl ERROR_COUNT_ZERO
          else if c < 255 then
            (let t1 = t\<lparr>buffer := (buffer t)[bucket' + 8 := c - 1]\<rparr>
             in if rdo (buffer t1) (bucket' + 8) = Some 0
                then Inr (foldl (\<lambda>t' filter'. filterReset t' bucket' filter') t1 [0..<8])
                else Inr t1)
          else Inr t)"

definition Table_get ::
  "Table \<Rightarrow> 32 word \<Rightarrow> 32 word \<Rightarrow> buffer \<Rightarrow> nat \<Rightarrow> buffer \<Rightarrow> nat \<Rightarrow> nat \<times> buffer \<times> Table" where
  "Table_get t h1 h2 key keyOffset' value valueOffset' =
     (let tag = tagOf h1; b1 = bucketOf t h1; b2 = bucketOf t h2; f1 = f1Of tag; f2 = f2Of tag
      in if rd (buffer t) (b1 + f1) AND f2 \<noteq> 0 then
           (let s1 = scan t b1 tag key keyOffset' in
            if s1 < 8 then
              (let t1 = t\<lparr>buffer := (buffer t)[b1 + 18 := rd (buffer t) (b1 + 18) OR bitOf s1]\<rparr>
               in (1, copyValueTo t1 (Other (buffer t1)) (valueOffset t1 b1 s1) value valueOffset', t1))
            else
              (let s2 = scan t b2 tag key keyOffset' in
               if s2 < 8 then
                 (let t1 = t\<lparr>buffer := (buffer t)[b2 + 18 := rd (buffer t) (b2 + 18) OR bitOf s2]\<rparr>
                  in (1, copyValueTo t1 (Other (buffer t1)) (valueOffset t1 b2 s2) value valueOffset', t1))
               else (0, value, t)))
         else (0, value, t))"

text \<open>\<open>zero\<close>: unrolled stores of 0 below 64 bytes, \<open>buffer.fill\<close> from there on.\<close>

fun zeroN :: "nat \<Rightarrow> buffer \<Rightarrow> nat \<Rightarrow> buffer" where
  "zeroN 0 b offset = b"
| "zeroN (Suc n) b offset = zeroN n (b[offset := 0]) (Suc offset)"

fun zeroGroups :: "nat \<Rightarrow> buffer \<Rightarrow> nat \<Rightarrow> buffer" where
  "zeroGroups 0 b offset = b"
| "zeroGroups (Suc groups) b offset = zeroGroups groups (zeroN 4 b offset) (offset + 4)"

definition fill0 :: "buffer \<Rightarrow> nat \<Rightarrow> nat \<Rightarrow> buffer" where
  "fill0 b start end' = storeAll (replicate (end' - start) 0) b start"

definition zero :: "Table \<Rightarrow> nat \<Rightarrow> nat \<Rightarrow> Table" where
  "zero t offset size' =
     (if size' < 64 then
        (let groups = drop_bit 2 size'
         in t\<lparr>buffer := zeroN (size' - 4 * groups) (zeroGroups groups (buffer t) offset) (offset + 4 * groups)\<rparr>)
      else t\<lparr>buffer := fill0 (buffer t) offset (offset + size')\<rparr>)"

text \<open>The four statements that empty a slot in \<open>unset\<close>.\<close>

definition clearSlot :: "Table \<Rightarrow> nat \<Rightarrow> nat \<Rightarrow> Table" where
  "clearSlot t b s =
     (let t1 = t\<lparr>buffer := (buffer t)[b + 9 := rd (buffer t) (b + 9) AND NOT (bitOf s)]\<rparr>;
          t2 = t1\<lparr>buffer := (buffer t1)[b + 9 + 1 + s := 0]\<rparr>;
          t3 = zero t2 (keyOffset t2 b s) (keySize t2)
      in zero t3 (valueOffset t3 b s) (valueSize t3))"

definition Table_unset :: "Table \<Rightarrow> 32 word \<Rightarrow> 32 word \<Rightarrow> buffer \<Rightarrow> nat \<Rightarrow> (error + nat) \<times> Table" where
  "Table_unset t h1 h2 key keyOffset' =
     (let tag = tagOf h1; b1 = bucketOf t h1; b2 = bucketOf t h2; f1 = f1Of tag; f2 = f2Of tag
      in if rd (buffer t) (b1 + f1) AND f2 \<noteq> 0 then
           (let s1 = scan t b1 tag key keyOffset' in
            if s1 < 8 then (Inr 1, filterReset (clearSlot t b1 s1) b1 f1)
            else
              (let s2 = scan t b2 tag key keyOffset' in
               if s2 < 8 then
                 (let t1 = clearSlot t b2 s2
                  in case filterDecrementSecondPosition t1 b1 of
                       Inl e \<Rightarrow> (Inl e, t1)
                     | Inr t2 \<Rightarrow> (Inr 1, t2))
               else (Inr 0, t)))
         else (Inr 0, t))"

text \<open>Setting the filter bit \<open>f2\<close> of filter \<open>f1\<close> in bucket \<open>b1\<close>: \<open>this.buffer[b1 + f1] |= f2\<close>.\<close>

definition filterAdd :: "Table \<Rightarrow> nat \<Rightarrow> nat \<Rightarrow> byte \<Rightarrow> Table" where
  "filterAdd t b1 f1 f2 = t\<lparr>buffer := (buffer t)[b1 + f1 := rd (buffer t) (b1 + f1) OR f2]\<rparr>"

text \<open>\<open>cache\<close> from "Evict the least recently used slot in first position" on.\<close>

definition Table_cacheEvict ::
  "Table \<Rightarrow> 32 word \<Rightarrow> buffer \<Rightarrow> nat \<Rightarrow> buffer \<Rightarrow> nat \<Rightarrow> nat \<times> Table" where
  "Table_cacheEvict t h1 key keyOffset' value valueOffset' =
     (let tag = tagOf h1; b1 = bucketOf t h1; f1 = f1Of tag; f2 = f2Of tag
      in case evict t b1 of (s3, t1) \<Rightarrow>
           (let eviction = rd (buffer t1) (b1 + 9) AND bitOf s3;
                t2 = (if eviction \<noteq> 0 then
                        (let t' = t1\<lparr>buffer := (buffer t1)[b1 + 9 := rd (buffer t1) (b1 + 9) AND NOT (bitOf s3)]\<rparr>
                         in filterReset t' b1 (unat (rd (buffer t') (b1 + 9 + 1 + s3) AND 7)))
                      else t1);
                t3 = assign t2 b1 tag s3 (Other key) keyOffset' (Other value) valueOffset';
                t4 = filterAdd t3 b1 f1 f2;
                t5 = t4\<lparr>buffer := (buffer t4)[b1 + 18 := rd (buffer t4) (b1 + 18) OR bitOf s3]\<rparr>
            in (if eviction \<noteq> 0 then 2 else 0, t5)))"

definition Table_cache ::
  "Table \<Rightarrow> 32 word \<Rightarrow> 32 word \<Rightarrow> buffer \<Rightarrow> nat \<Rightarrow> buffer \<Rightarrow> nat \<Rightarrow> nat \<times> Table" where
  "Table_cache t h1 h2 key keyOffset' value valueOffset' =
     (let tag = tagOf h1; b1 = bucketOf t h1; f1 = f1Of tag; f2 = f2Of tag
      in if rd (buffer t) (b1 + f1) AND f2 \<noteq> 0 then
           (let s1 = scan t b1 tag key keyOffset' in
            if s1 < 8 then
              (let t1 = t\<lparr>buffer := (buffer t)[b1 + 18 := rd (buffer t) (b1 + 18) OR bitOf s1]\<rparr>
               in (1, t1\<lparr>buffer := copyValueTo t1 (Other value) valueOffset' (buffer t1) (valueOffset t1 b1 s1)\<rparr>))
            else Table_cacheEvict t h1 key keyOffset' value valueOffset')
         else Table_cacheEvict t h1 key keyOffset' value valueOffset')"

text \<open>
  \<open>vacate\<close>, entered at \<open>slot\<close>: the resident of each slot is rehashed from its key bytes
  in the buffer and, where its other bucket has room, copied there out of this same buffer.
\<close>

function vacateFrom :: "env \<Rightarrow> Table \<Rightarrow> nat \<Rightarrow> nat \<Rightarrow> (error + nat) \<times> Table" where
  "vacateFrom E t bucket' slot =
     (if slot < 8 then
        (let keyOffset' = keyOffset t bucket' slot;
             valueOffset' = valueOffset t bucket' slot;
             (H1, H2) = Hash E (buffer t) keyOffset' (keySize t);
             tag = tagOf H1; b1 = bucketOf t H1; b2 = bucketOf t H2
         in if bucket' = b1 then
              (let s2 = SLOT (rd (buffer t) (b2 + 9)) in
               if s2 < 8 then
                 (Inr slot,
                  filterIncrementSecondPosition
                    (assign t b2 tag s2 This keyOffset' This valueOffset') b1)
               else vacateFrom E t bucket' (slot + 1))
            else if bucket' = b2 then
              (let s1 = SLOT (rd (buffer t) (b1 + 9)) in
               if s1 < 8 then
                 (let t1 = assign t b1 tag s1 This keyOffset' This valueOffset'
                  in case filterDecrementSecondPosition t1 b1 of
                       Inl e \<Rightarrow> (Inl e, t1)
                     | Inr t2 \<Rightarrow> (Inr slot, t2))
               else vacateFrom E t bucket' (slot + 1))
            else (Inl ERROR_VACATE, t))
      else (Inr slot, t))"
  by pat_completeness auto
termination
  by (relation "measure (\<lambda>(E, t, bucket', slot). 8 - slot)") auto

definition vacate :: "env \<Rightarrow> Table \<Rightarrow> nat \<Rightarrow> (error + nat) \<times> Table" where
  "vacate E t bucket' = vacateFrom E t bucket' 0"

text \<open>\<open>set\<close> from "Find an empty slot in first position" on, where both branches of the search end up.\<close>

definition Table_insert ::
  "env \<Rightarrow> Table \<Rightarrow> 32 word \<Rightarrow> 32 word \<Rightarrow> buffer \<Rightarrow> nat \<Rightarrow> buffer \<Rightarrow> nat \<Rightarrow> (error + int) \<times> Table" where
  "Table_insert E t h1 h2 key keyOffset' value valueOffset' =
     (let tag = tagOf h1; b1 = bucketOf t h1; b2 = bucketOf t h2; f1 = f1Of tag; f2 = f2Of tag;
          s3 = SLOT (rd (buffer t) (b1 + 9))
      in if s3 < 8 then
           (Inr 0, filterAdd (assign t b1 tag s3 (Other key) keyOffset' (Other value) valueOffset') b1 f1 f2)
         else
           (let s4 = SLOT (rd (buffer t) (b2 + 9)) in
            if s4 < 8 then
              (Inr 0, filterIncrementSecondPosition
                        (filterAdd (assign t b2 tag s4 (Other key) keyOffset' (Other value) valueOffset') b1 f1 f2) b1)
            else
              (case vacate E t b1 of
                 (Inl e, t1) \<Rightarrow> (Inl e, t1)
               | (Inr s5, t1) \<Rightarrow>
                   if s5 < 8 then
                     (Inr 0, filterAdd (assign t1 b1 tag s5 (Other key) keyOffset' (Other value) valueOffset') b1 f1 f2)
                   else
                     (case vacate E t1 b2 of
                        (Inl e, t2) \<Rightarrow> (Inl e, t2)
                      | (Inr s6, t2) \<Rightarrow>
                          if s6 < 8 then
                            (Inr 0, filterIncrementSecondPosition
                                      (filterAdd (assign t2 b2 tag s6 (Other key) keyOffset' (Other value) valueOffset') b1 f1 f2) b1)
                          else (Inr (- 1), t2)))))"

definition Table_set ::
  "env \<Rightarrow> Table \<Rightarrow> 32 word \<Rightarrow> 32 word \<Rightarrow> buffer \<Rightarrow> nat \<Rightarrow> buffer \<Rightarrow> nat \<Rightarrow> (error + int) \<times> Table" where
  "Table_set E t h1 h2 key keyOffset' value valueOffset' =
     (let tag = tagOf h1; b1 = bucketOf t h1; b2 = bucketOf t h2; f1 = f1Of tag; f2 = f2Of tag
      in if rd (buffer t) (b1 + f1) AND f2 \<noteq> 0 then
           (let s1 = scan t b1 tag key keyOffset' in
            if s1 < 8 then
              (Inr 1, t\<lparr>buffer := copyValueTo t (Other value) valueOffset' (buffer t) (valueOffset t b1 s1)\<rparr>)
            else
              (let s2 = scan t b2 tag key keyOffset' in
               if s2 < 8 then
                 (Inr 1, t\<lparr>buffer := copyValueTo t (Other value) valueOffset' (buffer t) (valueOffset t b2 s2)\<rparr>)
               else Table_insert E t h1 h2 key keyOffset' value valueOffset'))
         else Table_insert E t h1 h2 key keyOffset' value valueOffset')"

subsection \<open>resize\<close>

definition BUCKETS_MAX :: nat where
  "BUCKETS_MAX = 65536"

text \<open>\<open>Assert.P2\<close> passes when \<open>value > 0\<close> and the 32-bit \<open>value & (value - 1)\<close> is 0.\<close>

definition P2 :: "nat \<Rightarrow> bool" where
  "P2 value' = (0 < value' \<and> (word_of_nat value' AND word_of_nat (value' - 1) :: 32 word) = 0)"

text \<open>
  The rebuild loop over the slots of the old buffer, in the order \<open>index\<close>, then \<open>slot\<close>.
  \<open>Inr False\<close>: a \<open>set\<close> answered -1. \<open>Inr True\<close>: every occupied slot was set.
\<close>

fun resizeLoop :: "env \<Rightarrow> buffer \<Rightarrow> Table \<Rightarrow> (nat \<times> nat) list \<Rightarrow> (error + bool) \<times> Table" where
  "resizeLoop E old t [] = (Inr True, t)"
| "resizeLoop E old t ((index, slot) # rest) =
     (let bucket' = index * bucket t in
      if rd old (bucket' + 9) AND bitOf slot \<noteq> 0 then
        (let keyOffset' = keyOffset t bucket' slot;
             valueOffset' = valueOffset t bucket' slot;
             (H1, H2) = Hash E old keyOffset' (keySize t)
         in case Table_set E t H1 H2 old keyOffset' old valueOffset' of
              (Inl e, t1) \<Rightarrow> (Inl e, t1)
            | (Inr r, t1) \<Rightarrow> if r = - 1 then (Inr False, t1) else resizeLoop E old t1 rest)
      else resizeLoop E old t rest)"

definition Table_resize :: "env \<Rightarrow> Table \<Rightarrow> nat \<Rightarrow> (error + nat) \<times> Table" where
  "Table_resize E t resizeBuckets =
     (if resizeBuckets < buckets t * 2 then (Inl ERROR_ASSERT, t)
      else if \<not> P2 resizeBuckets then (Inl ERROR_ASSERT, t)
      else if resizeBuckets > BUCKETS_MAX \<or> bucket t * resizeBuckets > BUFFER_MAX E
        then (Inl ERROR_MAXIMUM_CAPACITY_EXCEEDED, t)
      else
        (let buckets' = buckets t;
             buffer' = buffer t;
             t1 = t\<lparr>buckets := resizeBuckets,
                    buffer := replicate (bucket t * resizeBuckets) 0,
                    mask := resizeBuckets - 1\<rparr>
         in case resizeLoop E buffer' t1 (List.product [0..<buckets'] [0..<8]) of
              (Inl e, t2) \<Rightarrow> (Inl e, t2)
            | (Inr False, t2) \<Rightarrow> (Inr 0, t2\<lparr>buckets := buckets', buffer := buffer', mask := buckets' - 1\<rparr>)
            | (Inr True, t2) \<Rightarrow> (Inr 1, t2)))"

section \<open>Coordinator (class HashTable)\<close>

record HashTable =
  hKeySize :: nat
  hValueSize :: nat
  hBucket :: nat
  capacity :: int
  length' :: int
  hMask :: nat
  mode :: nat
  tables :: "Table list"

text \<open>
  The fields \<open>keySize\<close>, \<open>valueSize\<close>, \<open>bucket\<close>, \<open>mask\<close> and \<open>length\<close> of the class carry a
  prefix or a prime here, since the shard's record and the list library own the names.
\<close>

text \<open>
  The end of the constructor, from \<open>this.keySize = keySize\<close> on, for the \<open>buffers\<close> and
  \<open>buckets\<close> that the sizing helpers computed and the assertions before it let through.
\<close>

definition bucketSize :: "nat \<Rightarrow> nat \<Rightarrow> nat" where
  "bucketSize keySize' valueSize' = ((20 + (keySize' + valueSize') * 8 + 63) div 64) * 64"

definition HashTable_new :: "nat \<Rightarrow> nat \<Rightarrow> nat \<Rightarrow> nat \<Rightarrow> HashTable" where
  "HashTable_new keySize' valueSize' buffers buckets' =
     \<lparr> hKeySize = keySize', hValueSize = valueSize',
       hBucket = bucketSize keySize' valueSize',
       capacity = int (buffers * buckets' * 8),
       length' = 0,
       hMask = buffers - 1,
       mode = 0,
       tables = replicate buffers (Table_new keySize' valueSize' (bucketSize keySize' valueSize') buckets') \<rparr>"

text \<open>\<open>(((H1 >> 24) << 8) | (H2 >> 24)) & this.mask\<close>\<close>

definition tableIndex :: "HashTable \<Rightarrow> 32 word \<Rightarrow> 32 word \<Rightarrow> nat" where
  "tableIndex h H1 H2 =
     unat ((push_bit 8 (signed_drop_bit 24 H1) OR signed_drop_bit 24 H2) AND word_of_nat (hMask h))"

definition HashTable_exist :: "env \<Rightarrow> HashTable \<Rightarrow> buffer \<Rightarrow> nat \<Rightarrow> error + nat" where
  "HashTable_exist E h key keyOffset' =
     (let (H1, H2) = Hash E key keyOffset' (hKeySize h); i = tableIndex h H1 H2
      in if i < length (tables h) then Inr (Table_exist (tables h ! i) H1 H2 key keyOffset')
         else Inl ERROR_TYPE)"

definition HashTable_get ::
  "env \<Rightarrow> HashTable \<Rightarrow> buffer \<Rightarrow> nat \<Rightarrow> buffer \<Rightarrow> nat \<Rightarrow> (error + nat) \<times> buffer \<times> HashTable" where
  "HashTable_get E h key keyOffset' value valueOffset' =
     (let (H1, H2) = Hash E key keyOffset' (hKeySize h); i = tableIndex h H1 H2
      in if i < length (tables h) then
           (if hValueSize h = 0 then
              (case Table_get (tables h ! i) H1 H2 key keyOffset' [] 0 of
                 (r, v, t1) \<Rightarrow> (Inr r, value, h\<lparr>tables := (tables h)[i := t1]\<rparr>))
            else
              (case Table_get (tables h ! i) H1 H2 key keyOffset' value valueOffset' of
                 (r, v, t1) \<Rightarrow> (Inr r, v, h\<lparr>tables := (tables h)[i := t1]\<rparr>)))
         else (Inl ERROR_TYPE, value, h))"

definition HashTable_unset :: "env \<Rightarrow> HashTable \<Rightarrow> buffer \<Rightarrow> nat \<Rightarrow> (error + nat) \<times> HashTable" where
  "HashTable_unset E h key keyOffset' =
     (let (H1, H2) = Hash E key keyOffset' (hKeySize h); i = tableIndex h H1 H2
      in if i < length (tables h) then
           (case Table_unset (tables h ! i) H1 H2 key keyOffset' of
              (Inl e, t1) \<Rightarrow> (Inl e, h\<lparr>tables := (tables h)[i := t1]\<rparr>)
            | (Inr r, t1) \<Rightarrow>
                (Inr r, h\<lparr>tables := (tables h)[i := t1],
                           length' := (if r = 1 then length' h - 1 else length' h)\<rparr>))
         else (Inl ERROR_TYPE, h))"

definition HashTable_cache ::
  "env \<Rightarrow> HashTable \<Rightarrow> buffer \<Rightarrow> nat \<Rightarrow> buffer \<Rightarrow> nat \<Rightarrow> (error + nat) \<times> HashTable" where
  "HashTable_cache E h key keyOffset' value valueOffset' =
     (if mode h = 1 then (Inl ERROR_MODE, h)
      else
        (let h1 = h\<lparr>mode := 2\<rparr>;
             (value1, valueOffset1) = (if hValueSize h1 = 0 then ([], 0) else (value, valueOffset'));
             (H1, H2) = Hash E key keyOffset' (hKeySize h1);
             i = tableIndex h1 H1 H2
         in if i < length (tables h1) then
              (case Table_cache (tables h1 ! i) H1 H2 key keyOffset' value1 valueOffset1 of
                 (r, t1) \<Rightarrow>
                   (Inr r, h1\<lparr>tables := (tables h1)[i := t1],
                               length' := (if r = 0 then length' h1 + 1 else length' h1)\<rparr>))
            else (Inl ERROR_TYPE, h1)))"

text \<open>
  The retry loop of \<open>set\<close>, \<open>for (resize = 1; resize <= 2; resize++)\<close>, over the shifts that
  are left; \<open>i\<close> is the index of the shard the first \<open>set\<close> went to.
\<close>

fun setRetry ::
  "env \<Rightarrow> HashTable \<Rightarrow> nat \<Rightarrow> 32 word \<Rightarrow> 32 word \<Rightarrow> buffer \<Rightarrow> nat \<Rightarrow> buffer \<Rightarrow> nat \<Rightarrow> nat list
     \<Rightarrow> (error + nat) \<times> HashTable" where
  "setRetry E h i h1 h2 key keyOffset' value valueOffset' [] = (Inl ERROR_SET, h)"
| "setRetry E h i h1 h2 key keyOffset' value valueOffset' (resize # rest) =
     (let table = tables h ! i; buckets' = buckets table
      in case Table_resize E table (push_bit resize buckets') of
           (Inl e, t1) \<Rightarrow> (Inl e, h\<lparr>tables := (tables h)[i := t1]\<rparr>)
         | (Inr ok, t1) \<Rightarrow>
             if ok \<noteq> 0 then
               (let hr = h\<lparr>tables := (tables h)[i := t1],
                           capacity := capacity h - int (buckets' * 8) + int (buckets t1 * 8)\<rparr>
                in case Table_set E t1 h1 h2 key keyOffset' value valueOffset' of
                     (Inl e, t2) \<Rightarrow> (Inl e, hr\<lparr>tables := (tables hr)[i := t2]\<rparr>)
                   | (Inr result, t2) \<Rightarrow>
                       if result = 1 then (Inr 1, hr\<lparr>tables := (tables hr)[i := t2]\<rparr>)
                       else if result = 0 then
                         (Inr 0, hr\<lparr>tables := (tables hr)[i := t2], length' := length' hr + 1\<rparr>)
                       else setRetry E (hr\<lparr>tables := (tables hr)[i := t2]\<rparr>) i h1 h2 key keyOffset' value valueOffset' rest)
             else setRetry E (h\<lparr>tables := (tables h)[i := t1]\<rparr>) i h1 h2 key keyOffset' value valueOffset' rest)"

definition HashTable_set ::
  "env \<Rightarrow> HashTable \<Rightarrow> buffer \<Rightarrow> nat \<Rightarrow> buffer \<Rightarrow> nat \<Rightarrow> (error + nat) \<times> HashTable" where
  "HashTable_set E h key keyOffset' value valueOffset' =
     (if mode h = 2 then (Inl ERROR_MODE, h)
      else
        (let h0 = h\<lparr>mode := 1\<rparr>;
             (value1, valueOffset1) = (if hValueSize h0 = 0 then ([], 0) else (value, valueOffset'));
             (h1, h2) = Hash E key keyOffset' (hKeySize h0);
             i = tableIndex h0 h1 h2
         in if i < length (tables h0) then
              (case Table_set E (tables h0 ! i) h1 h2 key keyOffset' value1 valueOffset1 of
                 (Inl e, t1) \<Rightarrow> (Inl e, h0\<lparr>tables := (tables h0)[i := t1]\<rparr>)
               | (Inr result, t1) \<Rightarrow>
                   if result = 1 then (Inr 1, h0\<lparr>tables := (tables h0)[i := t1]\<rparr>)
                   else if result = 0 then
                     (Inr 0, h0\<lparr>tables := (tables h0)[i := t1], length' := length' h0 + 1\<rparr>)
                   else setRetry E (h0\<lparr>tables := (tables h0)[i := t1]\<rparr>) i h1 h2 key keyOffset' value1 valueOffset1 [1, 2])
            else (Inl ERROR_TYPE, h0)))"

section \<open>Vocabulary of the proofs\<close>

definition copierFor :: "nat \<Rightarrow> copier \<Rightarrow> copier" where
  "copierFor n g = (case copy n of Some c \<Rightarrow> c | None \<Rightarrow> g)"

definition slice :: "buffer \<Rightarrow> nat \<Rightarrow> nat \<Rightarrow> byte list" where
  "slice b off n = map (\<lambda>d. rd b (off + d)) [0..<n]"

definition Table_ok :: "Table \<Rightarrow> bool" where
  "Table_ok t \<longleftrightarrow>
     4 \<le> keySize t \<and> keySize t \<le> 64 \<and> keySize t mod 4 = 0 \<and> valueSize t \<le> 1048576 \<and>
     bucket t = bucketSize (keySize t) (valueSize t) \<and>
     2 \<le> buckets t \<and> buckets t \<le> BUCKETS_MAX \<and> P2 (buckets t) \<and>
     mask t = buckets t - 1 \<and>
     length (buffer t) = bucket t * buckets t \<and>
     copyKey t = copierFor (keySize t) copyKeyGeneric \<and>
     copyValue t = copierFor (valueSize t) copyValueGeneric"

definition bidx :: "Table \<Rightarrow> 32 word \<Rightarrow> nat" where
  "bidx t h = unat (h AND word_of_nat (mask t))"

definition meta :: "Table \<Rightarrow> nat \<Rightarrow> nat \<Rightarrow> byte" where
  "meta t i j = rd (buffer t) (i * bucket t + j)"

definition keyAt :: "Table \<Rightarrow> nat \<Rightarrow> nat \<Rightarrow> byte list" where
  "keyAt t i s = slice (buffer t) (keyOffset t (i * bucket t) s) (keySize t)"

definition valAt :: "Table \<Rightarrow> nat \<Rightarrow> nat \<Rightarrow> byte list" where
  "valAt t i s = slice (buffer t) (valueOffset t (i * bucket t) s) (valueSize t)"

definition putMeta :: "Table \<Rightarrow> nat \<Rightarrow> nat \<Rightarrow> byte \<Rightarrow> Table" where
  "putMeta t i j v = t\<lparr>buffer := (buffer t)[i * bucket t + j := v]\<rparr>"

definition putKey :: "Table \<Rightarrow> nat \<Rightarrow> nat \<Rightarrow> bufref \<Rightarrow> nat \<Rightarrow> Table" where
  "putKey t i s src sO = t\<lparr>buffer := copyKeyTo t src sO (buffer t) (keyOffset t (i * bucket t) s)\<rparr>"

definition putVal :: "Table \<Rightarrow> nat \<Rightarrow> nat \<Rightarrow> bufref \<Rightarrow> nat \<Rightarrow> Table" where
  "putVal t i s src sO = t\<lparr>buffer := copyValueTo t src sO (buffer t) (valueOffset t (i * bucket t) s)\<rparr>"

definition zeroKey :: "Table \<Rightarrow> nat \<Rightarrow> nat \<Rightarrow> Table" where
  "zeroKey t i s = zero t (keyOffset t (i * bucket t) s) (keySize t)"

definition zeroVal :: "Table \<Rightarrow> nat \<Rightarrow> nat \<Rightarrow> Table" where
  "zeroVal t i s = zero t (valueOffset t (i * bucket t) s) (valueSize t)"

definition pres :: "Table \<Rightarrow> nat \<Rightarrow> nat \<Rightarrow> bool" where
  "pres t i s \<longleftrightarrow> meta t i 9 AND bitOf s \<noteq> 0"

definition rebuilt :: "Table \<Rightarrow> nat \<Rightarrow> nat \<Rightarrow> byte" where
  "rebuilt t i f =
     foldl (\<lambda>acc s. if pres t i s \<and> f1Of (meta t i (10 + s)) = f then acc OR f2Of (meta t i (10 + s)) else acc)
       0 [0..<8]"

definition resetAll :: "Table \<Rightarrow> nat \<Rightarrow> Table" where
  "resetAll t i = foldl (\<lambda>t' f. filterReset t' (i * bucket t) f) t [0..<8]"

definition hashOf :: "env \<Rightarrow> byte list \<Rightarrow> 32 word \<times> 32 word" where
  "hashOf E k = Hash E k 0 (length k)"

text \<open>
  A fixed process for the worked examples: a hash table whose first hash word is the first
  key byte shifted by 16 (so the tag is that byte and the first position is bucket 0 in
  every shard of at most 65536 buckets) and whose second hash word is that byte divided by 16.
\<close>

definition E0 :: env where
  "E0 = \<lparr> TABLE = (\<lambda>n. if n < 256 then push_bit 16 (word_of_nat n)
                      else if 1024 \<le> n \<and> n < 1280 then word_of_nat ((n - 1024) div 16) else 0),
          BUFFER_MAX = 2147483647 \<rparr>"

definition key1 :: "nat \<Rightarrow> buffer" where
  "key1 x = [word_of_nat x, 0, 0, 0]"

definition h1Of :: "nat \<Rightarrow> 32 word" where
  "h1Of x = fst (Hash E0 (key1 x) 0 4)"

definition h2Of :: "nat \<Rightarrow> 32 word" where
  "h2Of x = snd (Hash E0 (key1 x) 0 4)"

definition setKey :: "Table \<Rightarrow> nat \<Rightarrow> Table" where
  "setKey t x = snd (Table_set E0 t (h1Of x) (h2Of x) (key1 x) 0 [] 0)"

definition shard8 :: Table where
  "shard8 = foldl setKey (Table_new 4 0 64 2) [0, 1, 2, 3, 4, 5, 6, 7]"

section \<open>Proofs\<close>

declare HashLoop.simps [simp del]
declare vacateFrom.simps [simp del]

lemma rd_update: "rd (b[i := v]) j = (if i = j \<and> i < length b then v else rd b j)"
  by (auto simp: rd_def)

lemma rdo_rd: "i < length b \<Longrightarrow> rdo b i = Some (rd b i)"
  by (simp add: rdo_def rd_def)

lemma rdo_None: "\<not> i < length b \<Longrightarrow> rdo b i = None"
  by (simp add: rdo_def)

lemma length_copyN [simp]: "length (copyN n s sO t tO) = length t"
  by (induction n arbitrary: sO t tO) auto

lemma rd_copyN_out:
  "j < tO \<or> tO + n \<le> j \<Longrightarrow> rd (copyN n s sO t tO) j = rd t j"
proof (induction n arbitrary: sO t tO)
  case 0
  then show ?case by simp
next
  case (Suc n)
  have "j < Suc tO \<or> Suc tO + n \<le> j" using Suc.prems by auto
  from Suc.IH [OF this] show ?case using Suc.prems by (auto simp: rd_update)
qed

lemma rd_copyN_Other:
  "d < n \<Longrightarrow> tO + d < length t \<Longrightarrow> rd (copyN n (Other s) sO t tO) (tO + d) = rd s (sO + d)"
proof (induction n arbitrary: sO t tO d)
  case 0
  then show ?case by simp
next
  case (Suc n)
  show ?case
  proof (cases d)
    case 0
    then show ?thesis using Suc.prems by (simp add: rd_copyN_out rd_update)
  next
    case (Suc d')
    have "rd (copyN n (Other s) (Suc sO) (t[tO := srcRead (Other s) t sO]) (Suc tO)) (Suc tO + d') = rd s (Suc sO + d')"
      using Suc.prems \<open>d = Suc d'\<close> by (intro Suc.IH) auto
    then show ?thesis using \<open>d = Suc d'\<close> by simp
  qed
qed

lemma rd_copyN_This:
  "sO + n \<le> tO \<or> tO + n \<le> sO \<Longrightarrow> d < n \<Longrightarrow> tO + d < length t \<Longrightarrow>
   rd (copyN n This sO t tO) (tO + d) = rd t (sO + d)"
proof (induction n arbitrary: sO t tO d)
  case 0
  then show ?case by simp
next
  case (Suc n)
  show ?case
  proof (cases d)
    case 0
    then show ?thesis using Suc.prems by (simp add: rd_copyN_out rd_update)
  next
    case (Suc d')
    have "rd (copyN n This (Suc sO) (t[tO := srcRead This t sO]) (Suc tO)) (Suc tO + d')
          = rd (t[tO := srcRead This t sO]) (Suc sO + d')"
      using Suc.prems \<open>d = Suc d'\<close> by (intro Suc.IH) auto
    moreover have "tO \<noteq> Suc sO + d'" using Suc.prems \<open>d = Suc d'\<close> by auto
    ultimately show ?thesis using \<open>d = Suc d'\<close> by (simp add: rd_update)
  qed
qed

lemma copyN_add: "copyN (a + b) s sO t tO = copyN b s (sO + a) (copyN a s sO t tO) (tO + a)"
  by (induction a arbitrary: sO t tO) auto

lemma copyGroups_eq: "copyGroups w g s sO t tO = copyN (g * w) s sO t tO"
proof (induction g arbitrary: sO t tO)
  case 0
  then show ?case by simp
next
  case (Suc g)
  have "copyN (Suc g * w) s sO t tO = copyN (w + g * w) s sO t tO" by simp
  also have "\<dots> = copyN (g * w) s (sO + w) (copyN w s sO t tO) (tO + w)" by (rule copyN_add)
  finally show ?case by (simp add: Suc)
qed

lemma length_storeAll [simp]: "length (storeAll xs t tO) = length t"
  by (induction xs arbitrary: t tO) auto

lemma rd_storeAll_out:
  "j < tO \<or> tO + length xs \<le> j \<Longrightarrow> rd (storeAll xs t tO) j = rd t j"
proof (induction xs arbitrary: t tO)
  case Nil
  then show ?case by simp
next
  case (Cons x xs)
  have "j < Suc tO \<or> Suc tO + length xs \<le> j" using Cons.prems by auto
  from Cons.IH [OF this] show ?case using Cons.prems by (auto simp: rd_update)
qed

lemma rd_storeAll_in:
  "d < length xs \<Longrightarrow> tO + d < length t \<Longrightarrow> rd (storeAll xs t tO) (tO + d) = xs ! d"
proof (induction xs arbitrary: t tO d)
  case Nil
  then show ?case by simp
next
  case (Cons x xs)
  show ?case
  proof (cases d)
    case 0
    then show ?thesis using Cons.prems by (simp add: rd_storeAll_out rd_update)
  next
    case (Suc d')
    have "rd (storeAll xs (t[tO := x]) (Suc tO)) (Suc tO + d') = xs ! d'"
      using Cons.prems \<open>d = Suc d'\<close> by (intro Cons.IH) auto
    then show ?thesis using \<open>d = Suc d'\<close> by simp
  qed
qed

lemma length_bufferCopy [simp]: "length (bufferCopy s sO t tO n) = length t"
  by (simp add: bufferCopy_def)

lemma rd_bufferCopy_out:
  "j < tO \<or> tO + n \<le> j \<Longrightarrow> rd (bufferCopy s sO t tO n) j = rd t j"
  by (auto simp: bufferCopy_def intro!: rd_storeAll_out)

lemma rd_bufferCopy_Other:
  "sO + n \<le> length s \<Longrightarrow> d < n \<Longrightarrow> tO + d < length t \<Longrightarrow>
   rd (bufferCopy (Other s) sO t tO n) (tO + d) = rd s (sO + d)"
proof -
  assume a: "sO + n \<le> length s" "d < n" "tO + d < length t"
  have "rd (storeAll (take n (drop sO s)) t tO) (tO + d) = take n (drop sO s) ! d"
    using a by (intro rd_storeAll_in) auto
  also have "\<dots> = rd s (sO + d)" using a by (simp add: rd_def)
  finally show ?thesis by (simp add: bufferCopy_def)
qed

lemma rd_bufferCopy_This:
  "sO + n \<le> length t \<Longrightarrow> d < n \<Longrightarrow> tO + d < length t \<Longrightarrow>
   rd (bufferCopy This sO t tO n) (tO + d) = rd t (sO + d)"
proof -
  assume a: "sO + n \<le> length t" "d < n" "tO + d < length t"
  have "rd (storeAll (take n (drop sO t)) t tO) (tO + d) = take n (drop sO t) ! d"
    using a by (intro rd_storeAll_in) auto
  also have "\<dots> = rd t (sO + d)" using a by (simp add: rd_def)
  finally show ?thesis by (simp add: bufferCopy_def)
qed


lemma length_runCopy [simp]: "length (runCopy ks vs c s sO t tO) = length t"
  by (cases c) (simp_all add: copyGroups_eq Let_def)

lemma copyN_split: "a \<le> n \<Longrightarrow> copyN (n - a) s (sO + a) (copyN a s sO t tO) (tO + a) = copyN n s sO t tO"
  using copyN_add [of a "n - a" s sO t tO] by simp

lemma copyN_48: "copyN 16 s (sO + 32) (copyN 32 s sO t tO) (tO + 32) = copyN 48 s sO t tO"
  using copyN_add [of 32 16 s sO t tO] by simp

lemma copyN_64: "copyN 32 s (sO + 32) (copyN 32 s sO t tO) (tO + 32) = copyN 64 s sO t tO"
  using copyN_add [of 32 32 s sO t tO] by simp

lemma runCopy_keyGeneric: "runCopy ks vs copyKeyGeneric s sO t tO = copyN ks s sO t tO"
proof -
  have g: "4 * drop_bit 2 ks \<le> ks" by (simp add: drop_bit_eq_div)
  show ?thesis
    using copyN_split [OF g, of s sO t tO] by (simp add: Let_def copyGroups_eq mult.commute)
qed

lemma runCopy_valueGeneric: "vs < 128 \<Longrightarrow> runCopy ks vs copyValueGeneric s sO t tO = copyN vs s sO t tO"
proof -
  have g: "8 * drop_bit 3 vs \<le> vs" by (simp add: drop_bit_eq_div)
  show "vs < 128 \<Longrightarrow> ?thesis"
    using copyN_split [OF g, of s sO t tO] by (simp add: Let_def copyGroups_eq mult.commute)
qed

lemma runCopy_key_eq:
  "runCopy ks vs (copierFor ks copyKeyGeneric) s sO t tO = copyN ks s sO t tO"
  by (simp add: copierFor_def copy_def copyGroups_eq runCopy_keyGeneric copyN_48 copyN_64
           del: runCopy.simps(11))

lemma runCopy_value_eq:
  "vs < 128 \<or> vs = 128 \<or> vs = 256 \<Longrightarrow>
   runCopy ks vs (copierFor vs copyValueGeneric) s sO t tO = copyN vs s sO t tO"
  by (auto simp: copierFor_def copy_def copyGroups_eq runCopy_valueGeneric copyN_48 copyN_64
           simp del: runCopy.simps(12))

lemma runCopy_value_big:
  "\<not> (vs < 128 \<or> vs = 128 \<or> vs = 256) \<Longrightarrow>
   runCopy ks vs (copierFor vs copyValueGeneric) s sO t tO = bufferCopy s sO t tO vs"
  by (auto simp: copierFor_def copy_def)

lemma length_slice [simp]: "length (slice b off n) = n"
  by (simp add: slice_def)

lemma nth_slice [simp]: "d < n \<Longrightarrow> slice b off n ! d = rd b (off + d)"
  by (simp add: slice_def)

lemma slice_eq_iff: "slice a off n = slice b off' n \<longleftrightarrow> (\<forall>d<n. rd a (off + d) = rd b (off' + d))"
  by (auto simp: slice_def list_eq_iff_nth_eq)

lemma equal_slice:
  "aO + n \<le> length a \<Longrightarrow> bO + n \<le> length b \<Longrightarrow> equal a aO b bO n \<longleftrightarrow> slice a aO n = slice b bO n"
proof (induction n arbitrary: aO bO)
  case 0
  then show ?case by (simp add: slice_def)
next
  case (Suc n)
  have ih: "equal a (Suc aO) b (Suc bO) n \<longleftrightarrow> slice a (Suc aO) n = slice b (Suc bO) n"
    using Suc.prems by (intro Suc.IH) auto
  have r: "rdo a aO = Some (rd a aO)" "rdo b bO = Some (rd b bO)"
    using Suc.prems by (auto simp: rdo_rd)
  have "(\<forall>d<Suc n. rd a (aO + d) = rd b (bO + d)) \<longleftrightarrow>
        rd a aO = rd b bO \<and> (\<forall>d<n. rd a (Suc aO + d) = rd b (Suc bO + d))"
    by (auto simp: less_Suc_eq_0_disj)
  then show ?case by (simp add: ih r slice_eq_iff del: add_Suc)
qed

lemma bucketSize_ge: "20 + 8 * (ks + vs) \<le> bucketSize ks vs"
proof -
  define n where "n = 20 + (ks + vs) * 8 + 63"
  have "n div 64 * 64 + n mod 64 = n" by simp
  moreover have "n mod 64 < 64" by simp
  ultimately have "n \<le> n div 64 * 64 + 63" by linarith
  then show ?thesis by (simp add: bucketSize_def n_def)
qed

lemma Table_okD:
  assumes "Table_ok t"
  shows "4 \<le> keySize t" and "keySize t \<le> 64" and "keySize t mod 4 = 0"
    and "valueSize t \<le> 1048576"
    and "bucket t = bucketSize (keySize t) (valueSize t)"
    and "2 \<le> buckets t" and "buckets t \<le> 65536" and "P2 (buckets t)"
    and "mask t = buckets t - 1"
    and "length (buffer t) = bucket t * buckets t"
    and "copyKey t = copierFor (keySize t) copyKeyGeneric"
    and "copyValue t = copierFor (valueSize t) copyValueGeneric"
  using assms unfolding Table_ok_def BUCKETS_MAX_def by simp_all

lemma ok_layout: "Table_ok t \<Longrightarrow> 20 + 8 * (keySize t + valueSize t) \<le> bucket t"
  using bucketSize_ge [of "keySize t" "valueSize t"] by (simp only: Table_okD(5))

lemma addr_inj: "x < B \<Longrightarrow> y < B \<Longrightarrow> (i * B + x = i' * B + y) \<longleftrightarrow> (i = i' \<and> x = (y::nat))"
proof
  assume a: "i * B + x = i' * B + y" and b: "x < B" "y < B"
  have "(i * B + x) div B = i" using b by simp
  moreover have "(i' * B + y) div B = i'" using b by simp
  ultimately have "i = i'" using a by simp
  then show "i = i' \<and> x = y" using a by simp
qed simp

lemma addr_lt: "i < n \<Longrightarrow> x < B \<Longrightarrow> i * B + x < B * (n::nat)"
proof -
  assume a: "i < n" "x < B"
  have "i * B + x < i * B + B" using a by simp
  also have "\<dots> = Suc i * B" by simp
  also have "\<dots> \<le> n * B" using a by (intro mult_le_mono1) simp
  finally show ?thesis by (simp add: mult.commute)
qed

lemma ok_addr: "Table_ok t \<Longrightarrow> i < buckets t \<Longrightarrow> x < bucket t \<Longrightarrow> i * bucket t + x < length (buffer t)"
  using addr_lt [of i "buckets t" x "bucket t"] by (simp add: Table_okD(10))

lemma bidx_lt: "Table_ok t \<Longrightarrow> bidx t h < buckets t"
proof -
  assume ok: "Table_ok t"
  have m: "mask t < 2 ^ 32" using Table_okD(7,9) [OF ok] by simp
  have "h AND word_of_nat (mask t) \<le> (word_of_nat (mask t) :: 32 word)" by (rule word_and_le1)
  then have "unat (h AND word_of_nat (mask t)) \<le> unat (word_of_nat (mask t) :: 32 word)"
    by (simp add: word_le_nat_alt)
  also have "\<dots> = mask t" using m by (simp add: unat_of_nat)
  finally show ?thesis using Table_okD(6,9) [OF ok] by (simp add: bidx_def)
qed

lemma bucketOf_bidx: "bucketOf t h = bidx t h * bucket t"
  by (simp add: bucketOf_def bidx_def)

lemma region_out:
  assumes "y < B" "x + n \<le> B" "i' \<noteq> i \<or> y < x \<or> x + n \<le> y"
  shows "i' * B + y < i * B + x \<or> i * B + x + n \<le> i' * B + (y::nat)"
proof -
  consider "i' = i" | "i' < i" | "i < i'" by linarith
  then show ?thesis
  proof cases
    case 1
    then show ?thesis using assms by auto
  next
    case 2
    then have "Suc i' * B \<le> i * B" by (intro mult_le_mono1) simp
    then show ?thesis using assms by simp
  next
    case 3
    then have "Suc i * B \<le> i' * B" by (intro mult_le_mono1) simp
    then show ?thesis using assms by simp
  qed
qed

lemma slot_lt: "s < 8 \<Longrightarrow> d \<le> W \<Longrightarrow> 20 + 8 * W \<le> B \<Longrightarrow> 20 + W * s + d \<le> (B::nat)"
proof -
  assume a: "s < 8" "d \<le> W" "20 + 8 * W \<le> B"
  have "W * Suc s \<le> W * 8" using a by (intro mult_le_mono2) simp
  then have "W * s + W \<le> 8 * W" by (simp add: mult.commute)
  then show ?thesis using a(2,3) by linarith
qed

lemma slot_out:
  assumes "s' \<noteq> s" "d < W"
  shows "W * s' + d < W * s \<or> W * s + W \<le> W * s' + (d::nat)"
  using region_out [of d W 0 W s' s] assms by (simp add: mult.commute)

text \<open>The key bytes and the value bytes of slot (i, s) as regions of the buffer.\<close>

lemma key_region:
  assumes ok: "Table_ok t" and i: "i < buckets t" and s: "s < 8"
  shows "keyOffset t (i * bucket t) s = i * bucket t + (20 + (keySize t + valueSize t) * s)"
    and "20 + (keySize t + valueSize t) * s + keySize t \<le> bucket t"
    and "keyOffset t (i * bucket t) s + keySize t \<le> length (buffer t)"
proof -
  show a: "keyOffset t (i * bucket t) s = i * bucket t + (20 + (keySize t + valueSize t) * s)"
    by (simp add: keyOffset_def)
  show b: "20 + (keySize t + valueSize t) * s + keySize t \<le> bucket t"
    using slot_lt [OF s _ ok_layout [OF ok], of "keySize t"] by simp
  have "i * bucket t + bucket t = Suc i * bucket t" by simp
  also have "\<dots> \<le> buckets t * bucket t" using i by (intro mult_le_mono1) simp
  finally show "keyOffset t (i * bucket t) s + keySize t \<le> length (buffer t)"
    using b by (simp add: a Table_okD(10) [OF ok] mult.commute)
qed

lemma val_region:
  assumes ok: "Table_ok t" and i: "i < buckets t" and s: "s < 8"
  shows "valueOffset t (i * bucket t) s = i * bucket t + (20 + (keySize t + valueSize t) * s + keySize t)"
    and "20 + (keySize t + valueSize t) * s + keySize t + valueSize t \<le> bucket t"
    and "valueOffset t (i * bucket t) s + valueSize t \<le> length (buffer t)"
proof -
  show a: "valueOffset t (i * bucket t) s = i * bucket t + (20 + (keySize t + valueSize t) * s + keySize t)"
    by (simp add: valueOffset_def)
  show b: "20 + (keySize t + valueSize t) * s + keySize t + valueSize t \<le> bucket t"
    using slot_lt [OF s _ ok_layout [OF ok], of "keySize t + valueSize t"] by simp
  have "i * bucket t + bucket t = Suc i * bucket t" by simp
  also have "\<dots> \<le> buckets t * bucket t" using i by (intro mult_le_mono1) simp
  finally show "valueOffset t (i * bucket t) s + valueSize t \<le> length (buffer t)"
    using b by (simp add: a Table_okD(10) [OF ok] mult.commute)
qed

text \<open>
  A write that stays inside the byte range \<open>[x, x + n)\<close> of bucket \<open>i\<close> leaves every
  accessor alone whose bytes lie outside that range.
\<close>

lemma frame_meta:
  assumes ok: "Table_ok t" and "x + n \<le> bucket t" and "20 \<le> x \<or> i' \<noteq> i"
    and fr: "\<And>a. a < i * bucket t + x \<or> i * bucket t + x + n \<le> a \<Longrightarrow> rd b' a = rd (buffer t) a"
    and j: "j < 20"
  shows "meta (t\<lparr>buffer := b'\<rparr>) i' j = meta t i' j"
proof -
  have "j < bucket t" using j ok_layout [OF ok] by simp
  then have "i' * bucket t + j < i * bucket t + x \<or> i * bucket t + x + n \<le> i' * bucket t + j"
    using assms by (intro region_out) auto
  then show ?thesis by (simp add: meta_def fr)
qed

lemma frame_key:
  assumes ok: "Table_ok t" and s': "s' < 8"
    and out: "i' \<noteq> i \<or> keySize t + (20 + (keySize t + valueSize t) * s') \<le> x
               \<or> x + n \<le> 20 + (keySize t + valueSize t) * s'"
    and xn: "x + n \<le> bucket t"
    and fr: "\<And>a. a < i * bucket t + x \<or> i * bucket t + x + n \<le> a \<Longrightarrow> rd b' a = rd (buffer t) a"
  shows "keyAt (t\<lparr>buffer := b'\<rparr>) i' s' = keyAt t i' s'"
proof -
  have "rd b' (i' * bucket t + (20 + (keySize t + valueSize t) * s') + d)
        = rd (buffer t) (i' * bucket t + (20 + (keySize t + valueSize t) * s') + d)"
    if d: "d < keySize t" for d
  proof -
    have "20 + (keySize t + valueSize t) * s' + d < bucket t"
      using slot_lt [OF s' _ ok_layout [OF ok], of "keySize t"] d by simp
    then have "i' * bucket t + (20 + (keySize t + valueSize t) * s' + d) < i * bucket t + x
      \<or> i * bucket t + x + n \<le> i' * bucket t + (20 + (keySize t + valueSize t) * s' + d)"
      using out xn d by (intro region_out) auto
    then show ?thesis by (simp add: fr add.assoc)
  qed
  then show ?thesis
    by (simp add: keyAt_def keyOffset_def slice_eq_iff add.assoc)
qed

lemma frame_val:
  assumes ok: "Table_ok t" and s': "s' < 8"
    and out: "i' \<noteq> i \<or> valueSize t + (20 + (keySize t + valueSize t) * s' + keySize t) \<le> x
               \<or> x + n \<le> 20 + (keySize t + valueSize t) * s' + keySize t"
    and xn: "x + n \<le> bucket t"
    and fr: "\<And>a. a < i * bucket t + x \<or> i * bucket t + x + n \<le> a \<Longrightarrow> rd b' a = rd (buffer t) a"
  shows "valAt (t\<lparr>buffer := b'\<rparr>) i' s' = valAt t i' s'"
proof -
  have "rd b' (i' * bucket t + (20 + (keySize t + valueSize t) * s' + keySize t) + d)
        = rd (buffer t) (i' * bucket t + (20 + (keySize t + valueSize t) * s' + keySize t) + d)"
    if d: "d < valueSize t" for d
  proof -
    have "20 + (keySize t + valueSize t) * s' + keySize t + d < bucket t"
      using slot_lt [OF s' _ ok_layout [OF ok], of "keySize t + valueSize t"] d by simp
    then have "i' * bucket t + (20 + (keySize t + valueSize t) * s' + keySize t + d) < i * bucket t + x
      \<or> i * bucket t + x + n \<le> i' * bucket t + (20 + (keySize t + valueSize t) * s' + keySize t + d)"
      using out xn d by (intro region_out) auto
    then show ?thesis by (simp add: fr add.assoc)
  qed
  then show ?thesis
    by (simp add: valAt_def valueOffset_def slice_eq_iff add.assoc)
qed

subsection \<open>The two copy routines of a shard\<close>

lemma length_copyKeyTo [simp]: "length (copyKeyTo t src sO b tO) = length b"
  by (simp add: copyKeyTo_def)

lemma length_copyValueTo [simp]: "length (copyValueTo t src sO b tO) = length b"
  by (simp add: copyValueTo_def)

lemma copyKeyTo_eq: "Table_ok t \<Longrightarrow> copyKeyTo t src sO b tO = copyN (keySize t) src sO b tO"
  by (simp add: copyKeyTo_def Table_okD(11) runCopy_key_eq)

lemma rd_copyKeyTo_out:
  "Table_ok t \<Longrightarrow> a < tO \<or> tO + keySize t \<le> a \<Longrightarrow> rd (copyKeyTo t src sO b tO) a = rd b a"
  by (simp add: copyKeyTo_eq rd_copyN_out)

lemma rd_copyKeyTo_Other:
  "Table_ok t \<Longrightarrow> d < keySize t \<Longrightarrow> tO + d < length b \<Longrightarrow>
   rd (copyKeyTo t (Other k) sO b tO) (tO + d) = rd k (sO + d)"
  by (simp add: copyKeyTo_eq rd_copyN_Other)

lemma rd_copyKeyTo_This:
  "Table_ok t \<Longrightarrow> sO + keySize t \<le> tO \<or> tO + keySize t \<le> sO \<Longrightarrow> d < keySize t \<Longrightarrow>
   tO + d < length b \<Longrightarrow> rd (copyKeyTo t This sO b tO) (tO + d) = rd b (sO + d)"
  by (simp add: copyKeyTo_eq rd_copyN_This)

lemma copyValueTo_cases:
  assumes "Table_ok t"
  shows "copyValueTo t src sO b tO = copyN (valueSize t) src sO b tO
       \<or> copyValueTo t src sO b tO = bufferCopy src sO b tO (valueSize t)"
proof (cases "valueSize t < 128 \<or> valueSize t = 128 \<or> valueSize t = 256")
  case True
  then show ?thesis
    using runCopy_value_eq [of "valueSize t"] by (simp add: copyValueTo_def Table_okD(12) [OF assms])
next
  case False
  then show ?thesis
    using runCopy_value_big [of "valueSize t"] by (simp add: copyValueTo_def Table_okD(12) [OF assms])
qed

lemma rd_copyValueTo_out:
  "Table_ok t \<Longrightarrow> a < tO \<or> tO + valueSize t \<le> a \<Longrightarrow> rd (copyValueTo t src sO b tO) a = rd b a"
proof -
  assume ok: "Table_ok t" and a: "a < tO \<or> tO + valueSize t \<le> a"
  from copyValueTo_cases [OF ok, of src sO b tO] show ?thesis
  proof
    assume "copyValueTo t src sO b tO = copyN (valueSize t) src sO b tO"
    then show ?thesis using a by (simp add: rd_copyN_out)
  next
    assume "copyValueTo t src sO b tO = bufferCopy src sO b tO (valueSize t)"
    then show ?thesis using a by (simp add: rd_bufferCopy_out)
  qed
qed

lemma rd_copyValueTo_Other:
  "Table_ok t \<Longrightarrow> sO + valueSize t \<le> length v \<Longrightarrow> d < valueSize t \<Longrightarrow> tO + d < length b \<Longrightarrow>
   rd (copyValueTo t (Other v) sO b tO) (tO + d) = rd v (sO + d)"
proof -
  assume ok: "Table_ok t" and a: "sO + valueSize t \<le> length v" "d < valueSize t" "tO + d < length b"
  from copyValueTo_cases [OF ok, of "Other v" sO b tO] show ?thesis
  proof
    assume "copyValueTo t (Other v) sO b tO = copyN (valueSize t) (Other v) sO b tO"
    then show ?thesis using a by (simp add: rd_copyN_Other)
  next
    assume "copyValueTo t (Other v) sO b tO = bufferCopy (Other v) sO b tO (valueSize t)"
    then show ?thesis using a by (simp add: rd_bufferCopy_Other)
  qed
qed

lemma rd_copyValueTo_This:
  "Table_ok t \<Longrightarrow> sO + valueSize t \<le> tO \<or> tO + valueSize t \<le> sO \<Longrightarrow> sO + valueSize t \<le> length b \<Longrightarrow>
   d < valueSize t \<Longrightarrow> tO + d < length b \<Longrightarrow>
   rd (copyValueTo t This sO b tO) (tO + d) = rd b (sO + d)"
proof -
  assume ok: "Table_ok t" and a: "sO + valueSize t \<le> tO \<or> tO + valueSize t \<le> sO"
    "sO + valueSize t \<le> length b" "d < valueSize t" "tO + d < length b"
  from copyValueTo_cases [OF ok, of This sO b tO] show ?thesis
  proof
    assume "copyValueTo t This sO b tO = copyN (valueSize t) This sO b tO"
    then show ?thesis using a by (simp add: rd_copyN_This)
  next
    assume "copyValueTo t This sO b tO = bufferCopy This sO b tO (valueSize t)"
    then show ?thesis using a by (simp add: rd_bufferCopy_This)
  qed
qed

subsection \<open>zero\<close>

lemma length_zeroN [simp]: "length (zeroN n b off) = length b"
  by (induction n arbitrary: b off) auto

lemma rd_zeroN:
  "rd (zeroN n b off) a = (if off \<le> a \<and> a < off + n \<and> a < length b then 0 else rd b a)"
  by (induction n arbitrary: b off) (auto simp: rd_update)

lemma zeroN_add: "zeroN (m + n) b off = zeroN n (zeroN m b off) (off + m)"
  by (induction m arbitrary: b off) auto

lemma zeroGroups_eq: "zeroGroups g b off = zeroN (g * 4) b off"
proof (induction g arbitrary: b off)
  case 0
  then show ?case by simp
next
  case (Suc g)
  have "zeroN (Suc g * 4) b off = zeroN (4 + g * 4) b off" by simp
  also have "\<dots> = zeroN (g * 4) (zeroN 4 b off) (off + 4)" by (rule zeroN_add)
  finally show ?case by (simp add: Suc)
qed

lemma rd_fill0:
  "rd (fill0 b off e) a = (if off \<le> a \<and> a < e \<and> a < length b then 0 else rd b a)"
proof (cases "off \<le> a \<and> a < e \<and> a < length b")
  case True
  define d where "d = a - off"
  have d: "a = off + d" "d < e - off" using True by (auto simp: d_def)
  have "rd (storeAll (replicate (e - off) 0) b off) (off + d) = replicate (e - off) 0 ! d"
    using True d by (intro rd_storeAll_in) auto
  then show ?thesis using True d by (simp add: fill0_def)
next
  case False
  have "rd (storeAll (replicate (e - off) 0) b off) a = rd b a"
  proof (cases "a < length b")
    case True
    then have "a < off \<or> off + length (replicate (e - off) (0::byte)) \<le> a"
      using False by auto
    then show ?thesis by (rule rd_storeAll_out)
  next
    case False
    then show ?thesis by (simp add: rd_def)
  qed
  then show ?thesis using False by (auto simp: fill0_def)
qed

lemma zero_fields [simp]:
  "keySize (zero t off n) = keySize t" "valueSize (zero t off n) = valueSize t"
  "bucket (zero t off n) = bucket t" "buckets (zero t off n) = buckets t"
  "mask (zero t off n) = mask t" "copyKey (zero t off n) = copyKey t"
  "copyValue (zero t off n) = copyValue t"
  by (simp_all add: zero_def Let_def)

lemma length_zero [simp]: "length (buffer (zero t off n)) = length (buffer t)"
  by (simp add: zero_def Let_def fill0_def zeroGroups_eq)

lemma rd_zero:
  "rd (buffer (zero t off n)) a = (if off \<le> a \<and> a < off + n \<and> a < length (buffer t) then 0 else rd (buffer t) a)"
proof (cases "n < 64")
  case True
  have g: "drop_bit 2 n * 4 \<le> n" by (simp add: drop_bit_eq_div)
  have "zeroN (n - drop_bit 2 n * 4) (zeroN (drop_bit 2 n * 4) (buffer t) off) (off + drop_bit 2 n * 4)
        = zeroN n (buffer t) off"
    using zeroN_add [of "drop_bit 2 n * 4" "n - drop_bit 2 n * 4" "buffer t" off] g by simp
  then show ?thesis using True by (simp add: zero_def Let_def zeroGroups_eq rd_zeroN mult.commute)
next
  case False
  then show ?thesis by (simp add: zero_def rd_fill0)
qed

subsection \<open>Accessors after a store into the metadata of a bucket\<close>

lemma putMeta_fields [simp]:
  "keySize (putMeta t i j v) = keySize t" "valueSize (putMeta t i j v) = valueSize t"
  "bucket (putMeta t i j v) = bucket t" "buckets (putMeta t i j v) = buckets t"
  "mask (putMeta t i j v) = mask t" "copyKey (putMeta t i j v) = copyKey t"
  "copyValue (putMeta t i j v) = copyValue t"
  "length (buffer (putMeta t i j v)) = length (buffer t)"
  by (simp_all add: putMeta_def)

lemma ok_putMeta [simp]: "Table_ok (putMeta t i j v) = Table_ok t"
  by (simp add: Table_ok_def)

lemma bidx_putMeta [simp]: "bidx (putMeta t i j v) h = bidx t h"
  by (simp add: bidx_def)

lemma meta_putMeta:
  assumes ok: "Table_ok t" and i: "i < buckets t" and j: "j < 20" "j' < 20"
  shows "meta (putMeta t i j v) i' j' = (if i' = i \<and> j' = j then v else meta t i' j')"
proof -
  have b: "j < bucket t" "j' < bucket t" using j ok_layout [OF ok] by simp_all
  have "i * bucket t + j < length (buffer t)" using ok_addr [OF ok i b(1)] .
  then show ?thesis
    using addr_inj [OF b(1) b(2), of i i'] by (auto simp: meta_def putMeta_def rd_update)
qed

lemma putMeta_frame:
  "a < i * bucket t + j \<or> i * bucket t + j + 1 \<le> a \<Longrightarrow> rd (buffer (putMeta t i j v)) a = rd (buffer t) a"
  by (auto simp: putMeta_def rd_update)

lemma keyAt_putMeta:
  assumes ok: "Table_ok t" and j: "j < 20" and s': "s' < 8"
  shows "keyAt (putMeta t i j v) i' s' = keyAt t i' s'"
proof -
  have "keyAt (t\<lparr>buffer := buffer (putMeta t i j v)\<rparr>) i' s' = keyAt t i' s'"
    using j ok_layout [OF ok] by (intro frame_key [OF ok s', where i = i and x = j and n = 1] putMeta_frame) auto
  then show ?thesis by (simp add: putMeta_def)
qed

lemma valAt_putMeta:
  assumes ok: "Table_ok t" and j: "j < 20" and s': "s' < 8"
  shows "valAt (putMeta t i j v) i' s' = valAt t i' s'"
proof -
  have "valAt (t\<lparr>buffer := buffer (putMeta t i j v)\<rparr>) i' s' = valAt t i' s'"
    using j ok_layout [OF ok] by (intro frame_val [OF ok s', where i = i and x = j and n = 1] putMeta_frame) auto
  then show ?thesis by (simp add: putMeta_def)
qed

lemma layoutW: "Table_ok t \<Longrightarrow> s < 8 \<Longrightarrow> 20 + (keySize t + valueSize t) * s + (keySize t + valueSize t) \<le> bucket t"
  using slot_lt [of s "keySize t + valueSize t" "keySize t + valueSize t" "bucket t"] ok_layout [of t]
  by simp

lemma slot_sep: "s' \<noteq> s \<Longrightarrow> W * s' + W \<le> W * s \<or> W * s + W \<le> W * (s'::nat)"
proof -
  assume "s' \<noteq> s"
  then consider "Suc s' \<le> s" | "Suc s \<le> s'" by linarith
  then show ?thesis
  proof cases
    case 1
    then have "W * Suc s' \<le> W * s" by (rule mult_le_mono2)
    then show ?thesis by simp
  next
    case 2
    then have "W * Suc s \<le> W * s'" by (rule mult_le_mono2)
    then show ?thesis by simp
  qed
qed

lemma keyOffset_buffer [simp]: "keyOffset (t\<lparr>buffer := b\<rparr>) = keyOffset t"
  by (simp add: keyOffset_def fun_eq_iff)

lemma valueOffset_buffer [simp]: "valueOffset (t\<lparr>buffer := b\<rparr>) = valueOffset t"
  by (simp add: valueOffset_def fun_eq_iff)

subsection \<open>Accessors after a write inside the key bytes of a slot\<close>

lemma keyRegion_meta:
  assumes ok: "Table_ok t" and s: "s < 8" and j: "j < 20"
    and fr: "\<And>a. a < i * bucket t + (20 + (keySize t + valueSize t) * s)
            \<or> i * bucket t + (20 + (keySize t + valueSize t) * s) + keySize t \<le> a \<Longrightarrow> rd b' a = rd (buffer t) a"
  shows "meta (t\<lparr>buffer := b'\<rparr>) i' j = meta t i' j"
proof -
  have b: "20 + (keySize t + valueSize t) * s + keySize t \<le> bucket t"
    using layoutW [OF ok s] by linarith
  show ?thesis
    using b
    by (intro frame_meta [OF ok _ _ _ j, where i = i and x = "20 + (keySize t + valueSize t) * s" and n = "keySize t"] fr)
       auto
qed

lemma keyRegion_keyAt:
  assumes ok: "Table_ok t" and s: "s < 8" and s': "s' < 8" and ne: "i' \<noteq> i \<or> s' \<noteq> s"
    and fr: "\<And>a. a < i * bucket t + (20 + (keySize t + valueSize t) * s)
            \<or> i * bucket t + (20 + (keySize t + valueSize t) * s) + keySize t \<le> a \<Longrightarrow> rd b' a = rd (buffer t) a"
  shows "keyAt (t\<lparr>buffer := b'\<rparr>) i' s' = keyAt t i' s'"
proof -
  define W where "W = keySize t + valueSize t"
  have o: "i' \<noteq> i \<or> keySize t + (20 + W * s') \<le> 20 + W * s \<or> 20 + W * s + keySize t \<le> 20 + W * s'"
  proof (cases "i' = i")
    case True
    then have "s' \<noteq> s" using ne by simp
    from slot_sep [OF this, of W] show ?thesis unfolding W_def by linarith
  qed simp
  have b: "20 + W * s + keySize t \<le> bucket t" using layoutW [OF ok s] unfolding W_def by linarith
  show ?thesis
    using o b unfolding W_def
    by (intro frame_key [OF ok s', where i = i and x = "20 + (keySize t + valueSize t) * s" and n = "keySize t"] fr)
qed

lemma keyRegion_valAt:
  assumes ok: "Table_ok t" and s: "s < 8" and s': "s' < 8"
    and fr: "\<And>a. a < i * bucket t + (20 + (keySize t + valueSize t) * s)
            \<or> i * bucket t + (20 + (keySize t + valueSize t) * s) + keySize t \<le> a \<Longrightarrow> rd b' a = rd (buffer t) a"
  shows "valAt (t\<lparr>buffer := b'\<rparr>) i' s' = valAt t i' s'"
proof -
  define W where "W = keySize t + valueSize t"
  have o: "i' \<noteq> i \<or> valueSize t + (20 + W * s' + keySize t) \<le> 20 + W * s
           \<or> 20 + W * s + keySize t \<le> 20 + W * s' + keySize t"
  proof (cases "s' = s")
    case False
    from slot_sep [OF this, of W] show ?thesis unfolding W_def by linarith
  qed simp
  have b: "20 + W * s + keySize t \<le> bucket t" using layoutW [OF ok s] unfolding W_def by linarith
  show ?thesis
    using o b unfolding W_def
    by (intro frame_val [OF ok s', where i = i and x = "20 + (keySize t + valueSize t) * s" and n = "keySize t"] fr)
qed

subsection \<open>Accessors after a write inside the value bytes of a slot\<close>

lemma valRegion_meta:
  assumes ok: "Table_ok t" and s: "s < 8" and j: "j < 20"
    and fr: "\<And>a. a < i * bucket t + (20 + (keySize t + valueSize t) * s + keySize t)
            \<or> i * bucket t + (20 + (keySize t + valueSize t) * s + keySize t) + valueSize t \<le> a
            \<Longrightarrow> rd b' a = rd (buffer t) a"
  shows "meta (t\<lparr>buffer := b'\<rparr>) i' j = meta t i' j"
proof -
  have b: "20 + (keySize t + valueSize t) * s + keySize t + valueSize t \<le> bucket t"
    using layoutW [OF ok s] by linarith
  show ?thesis
    using b
    by (intro frame_meta [OF ok _ _ _ j, where i = i and x = "20 + (keySize t + valueSize t) * s + keySize t"
                and n = "valueSize t"] fr) auto
qed

lemma valRegion_keyAt:
  assumes ok: "Table_ok t" and s: "s < 8" and s': "s' < 8"
    and fr: "\<And>a. a < i * bucket t + (20 + (keySize t + valueSize t) * s + keySize t)
            \<or> i * bucket t + (20 + (keySize t + valueSize t) * s + keySize t) + valueSize t \<le> a
            \<Longrightarrow> rd b' a = rd (buffer t) a"
  shows "keyAt (t\<lparr>buffer := b'\<rparr>) i' s' = keyAt t i' s'"
proof -
  define W where "W = keySize t + valueSize t"
  have o: "i' \<noteq> i \<or> keySize t + (20 + W * s') \<le> 20 + W * s + keySize t
           \<or> 20 + W * s + keySize t + valueSize t \<le> 20 + W * s'"
  proof (cases "s' = s")
    case False
    from slot_sep [OF this, of W] show ?thesis unfolding W_def by linarith
  qed simp
  have b: "20 + W * s + keySize t + valueSize t \<le> bucket t" using layoutW [OF ok s] unfolding W_def by linarith
  show ?thesis
    using o b unfolding W_def
    by (intro frame_key [OF ok s', where i = i and x = "20 + (keySize t + valueSize t) * s + keySize t"
                and n = "valueSize t"] fr)
qed

lemma valRegion_valAt:
  assumes ok: "Table_ok t" and s: "s < 8" and s': "s' < 8" and ne: "i' \<noteq> i \<or> s' \<noteq> s"
    and fr: "\<And>a. a < i * bucket t + (20 + (keySize t + valueSize t) * s + keySize t)
            \<or> i * bucket t + (20 + (keySize t + valueSize t) * s + keySize t) + valueSize t \<le> a
            \<Longrightarrow> rd b' a = rd (buffer t) a"
  shows "valAt (t\<lparr>buffer := b'\<rparr>) i' s' = valAt t i' s'"
proof -
  define W where "W = keySize t + valueSize t"
  have o: "i' \<noteq> i \<or> valueSize t + (20 + W * s' + keySize t) \<le> 20 + W * s + keySize t
           \<or> 20 + W * s + keySize t + valueSize t \<le> 20 + W * s' + keySize t"
  proof (cases "i' = i")
    case True
    then have "s' \<noteq> s" using ne by simp
    from slot_sep [OF this, of W] show ?thesis unfolding W_def by linarith
  qed simp
  have b: "20 + W * s + keySize t + valueSize t \<le> bucket t" using layoutW [OF ok s] unfolding W_def by linarith
  show ?thesis
    using o b unfolding W_def
    by (intro frame_val [OF ok s', where i = i and x = "20 + (keySize t + valueSize t) * s + keySize t"
                and n = "valueSize t"] fr)
qed

lemma key_regions_disjoint:
  assumes ok: "Table_ok t" and i2: "i2 \<noteq> i" and s: "s < 8" and s2: "s2 < 8"
  shows "keyOffset t (i2 * bucket t) s2 + keySize t \<le> keyOffset t (i * bucket t) s
       \<or> keyOffset t (i * bucket t) s + keySize t \<le> keyOffset t (i2 * bucket t) s2"
proof -
  define W where "W = keySize t + valueSize t"
  have b: "20 + W * s + keySize t \<le> bucket t" "20 + W * s2 + keySize t \<le> bucket t"
    using layoutW [OF ok s] layoutW [OF ok s2] unfolding W_def by linarith+
  consider "Suc i2 \<le> i" | "Suc i \<le> i2" using i2 by linarith
  then show ?thesis
  proof cases
    case 1
    then have "Suc i2 * bucket t \<le> i * bucket t" by (rule mult_le_mono1)
    then show ?thesis using b unfolding keyOffset_def W_def by simp
  next
    case 2
    then have "Suc i * bucket t \<le> i2 * bucket t" by (rule mult_le_mono1)
    then show ?thesis using b unfolding keyOffset_def W_def by simp
  qed
qed

lemma val_regions_disjoint:
  assumes ok: "Table_ok t" and i2: "i2 \<noteq> i" and s: "s < 8" and s2: "s2 < 8"
  shows "valueOffset t (i2 * bucket t) s2 + valueSize t \<le> valueOffset t (i * bucket t) s
       \<or> valueOffset t (i * bucket t) s + valueSize t \<le> valueOffset t (i2 * bucket t) s2"
proof -
  define W where "W = keySize t + valueSize t"
  have b: "20 + W * s + keySize t + valueSize t \<le> bucket t" "20 + W * s2 + keySize t + valueSize t \<le> bucket t"
    using layoutW [OF ok s] layoutW [OF ok s2] unfolding W_def by linarith+
  consider "Suc i2 \<le> i" | "Suc i \<le> i2" using i2 by linarith
  then show ?thesis
  proof cases
    case 1
    then have "Suc i2 * bucket t \<le> i * bucket t" by (rule mult_le_mono1)
    then show ?thesis using b unfolding valueOffset_def W_def by simp
  next
    case 2
    then have "Suc i * bucket t \<le> i2 * bucket t" by (rule mult_le_mono1)
    then show ?thesis using b unfolding valueOffset_def W_def by simp
  qed
qed

subsection \<open>The four writes into a slot\<close>

lemma putKey_fields [simp]:
  "keySize (putKey t i s src sO) = keySize t" "valueSize (putKey t i s src sO) = valueSize t"
  "bucket (putKey t i s src sO) = bucket t" "buckets (putKey t i s src sO) = buckets t"
  "mask (putKey t i s src sO) = mask t" "copyKey (putKey t i s src sO) = copyKey t"
  "copyValue (putKey t i s src sO) = copyValue t"
  "length (buffer (putKey t i s src sO)) = length (buffer t)"
  by (simp_all add: putKey_def)

lemma putVal_fields [simp]:
  "keySize (putVal t i s src sO) = keySize t" "valueSize (putVal t i s src sO) = valueSize t"
  "bucket (putVal t i s src sO) = bucket t" "buckets (putVal t i s src sO) = buckets t"
  "mask (putVal t i s src sO) = mask t" "copyKey (putVal t i s src sO) = copyKey t"
  "copyValue (putVal t i s src sO) = copyValue t"
  "length (buffer (putVal t i s src sO)) = length (buffer t)"
  by (simp_all add: putVal_def)

lemma zeroKey_fields [simp]:
  "keySize (zeroKey t i s) = keySize t" "valueSize (zeroKey t i s) = valueSize t"
  "bucket (zeroKey t i s) = bucket t" "buckets (zeroKey t i s) = buckets t"
  "mask (zeroKey t i s) = mask t" "copyKey (zeroKey t i s) = copyKey t"
  "copyValue (zeroKey t i s) = copyValue t"
  "length (buffer (zeroKey t i s)) = length (buffer t)"
  by (simp_all add: zeroKey_def)

lemma zeroVal_fields [simp]:
  "keySize (zeroVal t i s) = keySize t" "valueSize (zeroVal t i s) = valueSize t"
  "bucket (zeroVal t i s) = bucket t" "buckets (zeroVal t i s) = buckets t"
  "mask (zeroVal t i s) = mask t" "copyKey (zeroVal t i s) = copyKey t"
  "copyValue (zeroVal t i s) = copyValue t"
  "length (buffer (zeroVal t i s)) = length (buffer t)"
  by (simp_all add: zeroVal_def)

lemma ok_puts [simp]:
  "Table_ok (putKey t i s src sO) = Table_ok t" "Table_ok (putVal t i s src sO) = Table_ok t"
  "Table_ok (zeroKey t i s) = Table_ok t" "Table_ok (zeroVal t i s) = Table_ok t"
  by (simp_all add: Table_ok_def)

lemma bidx_puts [simp]:
  "bidx (putKey t i s src sO) h = bidx t h" "bidx (putVal t i s src sO) h = bidx t h"
  "bidx (zeroKey t i s) h = bidx t h" "bidx (zeroVal t i s) h = bidx t h"
  by (simp_all add: bidx_def)

lemma same_fields_buffer:
  "keySize t' = keySize t \<Longrightarrow> valueSize t' = valueSize t \<Longrightarrow> bucket t' = bucket t \<Longrightarrow>
   meta (t\<lparr>buffer := buffer t'\<rparr>) = meta t' \<and> keyAt (t\<lparr>buffer := buffer t'\<rparr>) = keyAt t'
   \<and> valAt (t\<lparr>buffer := buffer t'\<rparr>) = valAt t'"
  by (simp add: meta_def keyAt_def valAt_def fun_eq_iff keyOffset_def valueOffset_def)

lemma putKey_frame:
  assumes ok: "Table_ok t"
    and a: "a < i * bucket t + (20 + (keySize t + valueSize t) * s)
            \<or> i * bucket t + (20 + (keySize t + valueSize t) * s) + keySize t \<le> a"
  shows "rd (buffer (putKey t i s src sO)) a = rd (buffer t) a"
  using a by (simp add: putKey_def rd_copyKeyTo_out [OF ok] keyOffset_def add.assoc)

lemma zeroKey_frame:
  "a < i * bucket t + (20 + (keySize t + valueSize t) * s)
     \<or> i * bucket t + (20 + (keySize t + valueSize t) * s) + keySize t \<le> a
   \<Longrightarrow> rd (buffer (zeroKey t i s)) a = rd (buffer t) a"
  by (auto simp: zeroKey_def rd_zero keyOffset_def)

lemma putVal_frame:
  assumes ok: "Table_ok t"
    and a: "a < i * bucket t + (20 + (keySize t + valueSize t) * s + keySize t)
            \<or> i * bucket t + (20 + (keySize t + valueSize t) * s + keySize t) + valueSize t \<le> a"
  shows "rd (buffer (putVal t i s src sO)) a = rd (buffer t) a"
  using a by (simp add: putVal_def rd_copyValueTo_out [OF ok] valueOffset_def add.assoc)

lemma zeroVal_frame:
  "a < i * bucket t + (20 + (keySize t + valueSize t) * s + keySize t)
     \<or> i * bucket t + (20 + (keySize t + valueSize t) * s + keySize t) + valueSize t \<le> a
   \<Longrightarrow> rd (buffer (zeroVal t i s)) a = rd (buffer t) a"
  by (auto simp: zeroVal_def rd_zero valueOffset_def)

lemma meta_slotWrite:
  assumes ok: "Table_ok t" and s: "s < 8" and j: "j < 20"
  shows "meta (putKey t i s src sO) i' j = meta t i' j"
    and "meta (zeroKey t i s) i' j = meta t i' j"
    and "meta (putVal t i s src sO) i' j = meta t i' j"
    and "meta (zeroVal t i s) i' j = meta t i' j"
  using keyRegion_meta [OF ok s j, of i "buffer (putKey t i s src sO)" i', OF putKey_frame [OF ok]]
        keyRegion_meta [OF ok s j, of i "buffer (zeroKey t i s)" i', OF zeroKey_frame]
        valRegion_meta [OF ok s j, of i "buffer (putVal t i s src sO)" i', OF putVal_frame [OF ok]]
        valRegion_meta [OF ok s j, of i "buffer (zeroVal t i s)" i', OF zeroVal_frame]
  by (simp_all add: same_fields_buffer)

lemma keyAt_slotWrite:
  assumes ok: "Table_ok t" and s: "s < 8" and s': "s' < 8"
  shows "i' \<noteq> i \<or> s' \<noteq> s \<Longrightarrow> keyAt (putKey t i s src sO) i' s' = keyAt t i' s'"
    and "i' \<noteq> i \<or> s' \<noteq> s \<Longrightarrow> keyAt (zeroKey t i s) i' s' = keyAt t i' s'"
    and "keyAt (putVal t i s src sO) i' s' = keyAt t i' s'"
    and "keyAt (zeroVal t i s) i' s' = keyAt t i' s'"
  using keyRegion_keyAt [OF ok s s', of i' i "buffer (putKey t i s src sO)", OF _ putKey_frame [OF ok]]
        keyRegion_keyAt [OF ok s s', of i' i "buffer (zeroKey t i s)", OF _ zeroKey_frame]
        valRegion_keyAt [OF ok s s', of i "buffer (putVal t i s src sO)" i', OF putVal_frame [OF ok]]
        valRegion_keyAt [OF ok s s', of i "buffer (zeroVal t i s)" i', OF zeroVal_frame]
  by (simp_all add: same_fields_buffer)

lemma valAt_slotWrite:
  assumes ok: "Table_ok t" and s: "s < 8" and s': "s' < 8"
  shows "valAt (putKey t i s src sO) i' s' = valAt t i' s'"
    and "valAt (zeroKey t i s) i' s' = valAt t i' s'"
    and "i' \<noteq> i \<or> s' \<noteq> s \<Longrightarrow> valAt (putVal t i s src sO) i' s' = valAt t i' s'"
    and "i' \<noteq> i \<or> s' \<noteq> s \<Longrightarrow> valAt (zeroVal t i s) i' s' = valAt t i' s'"
  using keyRegion_valAt [OF ok s s', of i "buffer (putKey t i s src sO)" i', OF putKey_frame [OF ok]]
        keyRegion_valAt [OF ok s s', of i "buffer (zeroKey t i s)" i', OF zeroKey_frame]
        valRegion_valAt [OF ok s s', of i' i "buffer (putVal t i s src sO)", OF _ putVal_frame [OF ok]]
        valRegion_valAt [OF ok s s', of i' i "buffer (zeroVal t i s)", OF _ zeroVal_frame]
  by (simp_all add: same_fields_buffer)

lemma keyAt_putKey_Other_same:
  assumes ok: "Table_ok t" and i: "i < buckets t" and s: "s < 8"
  shows "keyAt (putKey t i s (Other k) sO) i s = slice k sO (keySize t)"
proof -
  have "rd (copyKeyTo t (Other k) sO (buffer t) (keyOffset t (i * bucket t) s)) (keyOffset t (i * bucket t) s + d)
        = rd k (sO + d)" if "d < keySize t" for d
    using that key_region(3) [OF ok i s] by (intro rd_copyKeyTo_Other [OF ok]) auto
  then show ?thesis by (simp add: keyAt_def putKey_def slice_eq_iff)
qed

lemma keyAt_putKey_This_same:
  assumes ok: "Table_ok t" and i: "i < buckets t" and s: "s < 8"
    and i2: "i2 \<noteq> i" and s2: "s2 < 8"
  shows "keyAt (putKey t i s This (keyOffset t (i2 * bucket t) s2)) i s = keyAt t i2 s2"
proof -
  let ?tO = "keyOffset t (i * bucket t) s" and ?sO = "keyOffset t (i2 * bucket t) s2"
  note dj = key_regions_disjoint [OF ok i2 s s2]
  have "rd (copyKeyTo t This ?sO (buffer t) ?tO) (?tO + d) = rd (buffer t) (?sO + d)"
    if "d < keySize t" for d
    using that key_region(3) [OF ok i s] by (intro rd_copyKeyTo_This [OF ok dj]) auto
  then show ?thesis by (simp add: keyAt_def putKey_def slice_eq_iff)
qed

lemma valAt_putVal_Other_same:
  assumes ok: "Table_ok t" and i: "i < buckets t" and s: "s < 8" and v: "sO + valueSize t \<le> length v"
  shows "valAt (putVal t i s (Other v) sO) i s = slice v sO (valueSize t)"
proof -
  have "rd (copyValueTo t (Other v) sO (buffer t) (valueOffset t (i * bucket t) s)) (valueOffset t (i * bucket t) s + d)
        = rd v (sO + d)" if "d < valueSize t" for d
    using that val_region(3) [OF ok i s] by (intro rd_copyValueTo_Other [OF ok v]) auto
  then show ?thesis by (simp add: valAt_def putVal_def slice_eq_iff)
qed

lemma valAt_putVal_This_same:
  assumes ok: "Table_ok t" and i: "i < buckets t" and s: "s < 8"
    and i2: "i2 < buckets t" "i2 \<noteq> i" and s2: "s2 < 8"
  shows "valAt (putVal t i s This (valueOffset t (i2 * bucket t) s2)) i s = valAt t i2 s2"
proof -
  let ?tO = "valueOffset t (i * bucket t) s" and ?sO = "valueOffset t (i2 * bucket t) s2"
  note dj = val_regions_disjoint [OF ok i2(2) s s2]
  have "rd (copyValueTo t This ?sO (buffer t) ?tO) (?tO + d) = rd (buffer t) (?sO + d)"
    if "d < valueSize t" for d
    using that val_region(3) [OF ok i s] val_region(3) [OF ok i2(1) s2]
    by (intro rd_copyValueTo_This [OF ok dj]) auto
  then show ?thesis by (simp add: valAt_def putVal_def slice_eq_iff)
qed

lemma keyAt_zeroKey_same:
  assumes ok: "Table_ok t" and i: "i < buckets t" and s: "s < 8"
  shows "keyAt (zeroKey t i s) i s = replicate (keySize t) 0"
proof -
  have "rd (buffer (zero t (keyOffset t (i * bucket t) s) (keySize t))) (keyOffset t (i * bucket t) s + d) = 0"
    if "d < keySize t" for d
    using that key_region(3) [OF ok i s] by (simp add: rd_zero)
  then show ?thesis
    by (simp add: keyAt_def zeroKey_def list_eq_iff_nth_eq keyOffset_def)
qed

lemma valAt_zeroVal_same:
  assumes ok: "Table_ok t" and i: "i < buckets t" and s: "s < 8"
  shows "valAt (zeroVal t i s) i s = replicate (valueSize t) 0"
proof -
  have "rd (buffer (zero t (valueOffset t (i * bucket t) s) (valueSize t))) (valueOffset t (i * bucket t) s + d) = 0"
    if "d < valueSize t" for d
    using that val_region(3) [OF ok i s] by (simp add: rd_zero)
  then show ?thesis
    by (simp add: valAt_def zeroVal_def list_eq_iff_nth_eq valueOffset_def)
qed

subsection \<open>The statements of the shard as stores into metadata, keys and values\<close>

text \<open>
  Every equation takes the byte offset of the bucket as \<open>i * B\<close> with \<open>B = bucket t\<close> as
  a premise, so that it also rewrites where \<open>t\<close> is itself the result of earlier stores.
\<close>

lemma wr_putMeta: "B = bucket t \<Longrightarrow> t\<lparr>buffer := (buffer t)[i * B + j := v]\<rparr> = putMeta t i j v"
  by (simp add: putMeta_def)

lemma rd_meta: "B = bucket t \<Longrightarrow> rd (buffer t) (i * B + j) = meta t i j"
  by (simp add: meta_def)

lemma rdo_meta:
  "Table_ok t \<Longrightarrow> i < buckets t \<Longrightarrow> j < 20 \<Longrightarrow> B = bucket t \<Longrightarrow>
   rdo (buffer t) (i * B + j) = Some (meta t i j)"
  using ok_addr [of t i j] ok_layout [of t] by (simp add: rdo_rd meta_def)

lemma assign_eq:
  "B = bucket t \<Longrightarrow>
   assign t (i * B) tag s key kO value vO =
     putVal (putKey (putMeta (putMeta t i 9 (meta t i 9 OR bitOf s)) i (10 + s) tag) i s key kO) i s value vO"
  by (simp add: assign_def Let_def putVal_def putKey_def putMeta_def meta_def copyKeyTo_def copyValueTo_def
      keyOffset_def valueOffset_def ac_simps)

lemma filterAdd_eq: "B = bucket t \<Longrightarrow> filterAdd t (i * B) f1 f2 = putMeta t i f1 (meta t i f1 OR f2)"
  by (simp add: filterAdd_def putMeta_def meta_def)

lemma filterIncrementSecondPosition_eq:
  "Table_ok t \<Longrightarrow> i < buckets t \<Longrightarrow> B = bucket t \<Longrightarrow>
   filterIncrementSecondPosition t (i * B) =
     (if meta t i 8 < 255 then putMeta t i 8 (meta t i 8 + 1) else t)"
  by (simp add: filterIncrementSecondPosition_def rdo_meta putMeta_def)

lemma clearSlot_eq:
  "B = bucket t \<Longrightarrow>
   clearSlot t (i * B) s =
     zeroVal (zeroKey (putMeta (putMeta t i 9 (meta t i 9 AND NOT (bitOf s))) i (10 + s) 0) i s) i s"
  by (simp add: clearSlot_def Let_def zeroVal_def zeroKey_def putMeta_def meta_def
      keyOffset_def valueOffset_def ac_simps)

lemma filterResetSlot_step:
  assumes a: "i * B + f < length b" and f: "f < 8"
  shows "filterResetSlot (i * B) f b s =
         b[i * B + f := (if rd b (i * B + 9) AND bitOf s \<noteq> 0 \<and> f1Of (rd b (i * B + 9 + 1 + s)) = f
                          then rd b (i * B + f) OR f2Of (rd b (i * B + 9 + 1 + s)) else rd b (i * B + f))]"
  using a by (simp add: filterResetSlot_def Let_def rd_def)

lemma filterReset_fold:
  assumes a: "i * B + f < length b" and f: "f < 8"
  shows "foldl (filterResetSlot (i * B) f) (b[i * B + f := v]) xs =
         b[i * B + f := foldl (\<lambda>acc s. if rd b (i * B + 9) AND bitOf s \<noteq> 0 \<and> f1Of (rd b (i * B + 9 + 1 + s)) = f
                                   then acc OR f2Of (rd b (i * B + 9 + 1 + s)) else acc) v xs]"
proof (induction xs arbitrary: v)
  case Nil
  then show ?case by simp
next
  case (Cons s xs)
  have ne: "i * B + f \<noteq> i * B + 9" "i * B + f \<noteq> i * B + 9 + 1 + s" using f by auto
  have st: "filterResetSlot (i * B) f (b[i * B + f := v]) s =
        b[i * B + f := (if rd b (i * B + 9) AND bitOf s \<noteq> 0 \<and> f1Of (rd b (i * B + 9 + 1 + s)) = f
                          then v OR f2Of (rd b (i * B + 9 + 1 + s)) else v)]"
    using a ne by (simp add: filterResetSlot_step [OF _ f] rd_update)
  show ?case by (simp add: st Cons.IH)
qed

lemma filterReset_eq:
  assumes ok: "Table_ok t" and i: "i < buckets t" and f: "f < 8" and B: "B = bucket t"
  shows "filterReset t (i * B) f =
         (if meta t i 8 \<noteq> 0 then t else if meta t i f = 0 then t else putMeta t i f (rebuilt t i f))"
proof -
  have a: "i * bucket t + f < length (buffer t)"
    using ok_addr [OF ok i, of f] ok_layout [OF ok] f by simp
  have e: "i * bucket t + 9 + 1 + s = i * bucket t + (10 + s)" for s by simp
  have "foldl (filterResetSlot (i * bucket t) f) ((buffer t)[i * bucket t + f := 0]) [0..<8]
        = (buffer t)[i * bucket t + f := rebuilt t i f]"
    by (simp only: filterReset_fold [OF a f] rebuilt_def pres_def meta_def e)
  then show ?thesis
    using f by (simp add: B filterReset_def rdo_meta [OF ok i] putMeta_def)
qed

lemma filterDecrementSecondPosition_eq:
  assumes ok: "Table_ok t" and i: "i < buckets t" and B: "B = bucket t"
  shows "filterDecrementSecondPosition t (i * B) =
     (if meta t i 8 = 0 then Inl ERROR_COUNT_ZERO
      else if meta t i 8 < 255 then
        (if meta t i 8 = 1 then Inr (resetAll (putMeta t i 8 0) i) else Inr (putMeta t i 8 (meta t i 8 - 1)))
      else Inr t)"
proof -
  have m: "meta (putMeta t i 8 v) i 8 = v" for v
    by (simp add: meta_putMeta [OF ok i])
  have z: "(meta t i 8 - 1 = 0) = (meta t i 8 = 1)" by auto
  show ?thesis
    using ok i
    by (simp add: B filterDecrementSecondPosition_def rdo_meta wr_putMeta Let_def m z resetAll_def)
qed

subsection \<open>firstSlot and SLOT\<close>

lemma upt8: "[0..<8] = [0, 1, 2, 3, 4, 5, 6, 7::nat]"
  by (simp add: upt_rec)

lemma firstSlot_le: "firstSlot P \<le> 8"
  using length_takeWhile_le [of "\<lambda>slot. \<not> P slot" "[0..<8]"] by (simp add: firstSlot_def)

lemma firstSlot_hit: "firstSlot P < 8 \<Longrightarrow> P (firstSlot P)"
proof -
  assume a: "firstSlot P < 8"
  have "\<not> (\<lambda>slot. \<not> P slot) ([0..<8] ! length (takeWhile (\<lambda>slot. \<not> P slot) [0..<8]))"
    using a by (intro nth_length_takeWhile) (simp add: firstSlot_def)
  then show ?thesis using a by (simp add: firstSlot_def)
qed

lemma firstSlot_first: "s < firstSlot P \<Longrightarrow> \<not> P s"
proof -
  assume a: "s < firstSlot P"
  have "s < 8" using a firstSlot_le [of P] by simp
  have l: "s < length (takeWhile (\<lambda>slot. \<not> P slot) [0..<8])" using a by (simp add: firstSlot_def)
  then have "takeWhile (\<lambda>slot. \<not> P slot) [0..<8] ! s \<in> set (takeWhile (\<lambda>slot. \<not> P slot) [0..<8])"
    by (rule nth_mem)
  then have "\<not> P (takeWhile (\<lambda>slot. \<not> P slot) [0..<8] ! s)" by (rule set_takeWhileD [THEN conjunct2])
  then show ?thesis using \<open>s < 8\<close> by (simp add: takeWhile_nth [OF l])
qed

lemma firstSlot_miss: "firstSlot P = 8 \<longleftrightarrow> (\<forall>s<8. \<not> P s)"
proof
  assume "firstSlot P = 8"
  then show "\<forall>s<8. \<not> P s" using firstSlot_first [of _ P] by simp
next
  assume "\<forall>s<8. \<not> P s"
  then have "\<not> firstSlot P < 8" using firstSlot_hit [of P] by blast
  then show "firstSlot P = 8" using firstSlot_le [of P] by simp
qed

lemma firstSlot_cong: "(\<And>s. s < 8 \<Longrightarrow> P s = Q s) \<Longrightarrow> firstSlot P = firstSlot Q"
  unfolding firstSlot_def by (intro arg_cong [where f = length] takeWhile_cong) auto

lemma SLOT_le: "SLOT p \<le> 8"
  by (simp add: SLOT_def firstSlot_le)

lemma SLOT_free: "SLOT p < 8 \<Longrightarrow> p AND bitOf (SLOT p) = 0"
  unfolding SLOT_def by (rule firstSlot_hit)

lemma SLOT_full: "\<not> SLOT p < 8 \<Longrightarrow> s < 8 \<Longrightarrow> p AND bitOf s \<noteq> 0"
  using firstSlot_miss [of "\<lambda>slot. p AND bitOf slot = 0"] SLOT_le [of p] by (simp add: SLOT_def)

subsection \<open>Hash reads the key bytes only\<close>

lemma tab_slice:
  "off + n \<le> length buf \<Longrightarrow> p < n \<Longrightarrow> tab E j (slice buf off n) p = tab E j buf (off + p)"
  by (simp add: tab_def rdo_def rd_def)

lemma HashLoop_slice:
  "n mod 4 = 0 \<Longrightarrow> i mod 4 = 0 \<Longrightarrow> off + n \<le> length buf \<Longrightarrow>
   HashLoop E (slice buf off n) 0 n i h1 h2 = HashLoop E buf off n i h1 h2"
proof (induction E buf off n i h1 h2 rule: HashLoop.induct)
  case (1 E key keyOffset keySize i h1 h2)
  show ?case
  proof (cases "i < keySize")
    case True
    then have b: "i + 3 < keySize" using "1.prems" by presburger
    have m: "(i + 4) mod 4 = 0" using "1.prems" by presburger
    have t: "tab E j (slice key keyOffset keySize) (0 + i + c) = tab E j key (keyOffset + i + c)"
      if "c \<le> 3" for j c
      using tab_slice [OF "1.prems"(3), of "i + c" E j] that b by (simp add: add.assoc)
    let ?A = "h1 XOR (tab E (push_bit 1 i + 0) key (keyOffset + i + 0) XOR
                   tab E (push_bit 1 i + 1) key (keyOffset + i + 1) XOR
                   tab E (push_bit 1 i + 2) key (keyOffset + i + 2) XOR
                   tab E (push_bit 1 i + 3) key (keyOffset + i + 3))"
    let ?B = "h2 XOR (tab E (push_bit 1 i + 4) key (keyOffset + i + 0) XOR
                   tab E (push_bit 1 i + 5) key (keyOffset + i + 1) XOR
                   tab E (push_bit 1 i + 6) key (keyOffset + i + 2) XOR
                   tab E (push_bit 1 i + 7) key (keyOffset + i + 3))"
    have l: "HashLoop E (slice key keyOffset keySize) 0 keySize i h1 h2 =
        HashLoop E (slice key keyOffset keySize) 0 keySize (i + 4) ?A ?B"
      using True t [of 0] t [of 1] t [of 2] t [of 3]
      by (subst HashLoop.simps) (simp del: add_0 add_0_right)
    have r: "HashLoop E key keyOffset keySize i h1 h2 = HashLoop E key keyOffset keySize (i + 4) ?A ?B"
      using True by (subst HashLoop.simps) (simp only: if_True)
    show ?thesis
      unfolding l r by (rule "1.IH" [OF True "1.prems"(1) m "1.prems"(3)])
  next
    case False
    then show ?thesis by (simp add: HashLoop.simps)
  qed
qed

lemma Hash_slice:
  "n mod 4 = 0 \<Longrightarrow> off + n \<le> length buf \<Longrightarrow> Hash E buf off n = hashOf E (slice buf off n)"
  by (simp add: Hash_def hashOf_def HashLoop_slice)

lemma Hash_keyAt:
  "Table_ok t \<Longrightarrow> i < buckets t \<Longrightarrow> s < 8 \<Longrightarrow> B = bucket t \<Longrightarrow>
   Hash E (buffer t) (keyOffset t (i * B) s) (keySize t) = hashOf E (keyAt t i s)"
  using key_region(3) [of t i s] by (simp add: Hash_slice Table_okD(3) keyAt_def)

subsection \<open>scan\<close>

lemma scan_eq:
  assumes ok: "Table_ok t" and i: "i < buckets t" and k: "kO + keySize t \<le> length key" and B: "B = bucket t"
  shows "scan t (i * B) tag key kO =
         firstSlot (\<lambda>s. meta t i (10 + s) = tag \<and> pres t i s \<and> keyAt t i s = slice key kO (keySize t))"
  unfolding scan_def B
proof (rule firstSlot_cong)
  fix s :: nat
  assume s: "s < 8"
  have e: "i * bucket t + 9 + 1 + s = i * bucket t + (10 + s)" by simp
  show "(rdo (buffer t) (i * bucket t + 9 + 1 + s) = Some tag \<and>
         rd (buffer t) (i * bucket t + 9) AND bitOf s \<noteq> 0 \<and>
         equal (buffer t) (keyOffset t (i * bucket t) s) key kO (keySize t)) =
        (meta t i (10 + s) = tag \<and> pres t i s \<and> keyAt t i s = slice key kO (keySize t))"
    unfolding e
    using s by (simp add: rdo_meta [OF ok i] equal_slice [OF key_region(3) [OF ok i s] k] pres_def keyAt_def rd_meta)
qed

subsection \<open>Accessors after filterReset\<close>

lemma pres_putMeta:
  "Table_ok t \<Longrightarrow> i < buckets t \<Longrightarrow> j < 20 \<Longrightarrow>
   pres (putMeta t i j v) i' s = (if i' = i \<and> j = 9 then v AND bitOf s \<noteq> 0 else pres t i' s)"
  by (simp add: pres_def meta_putMeta)

lemma rebuilt_cong:
  "(\<And>s. s < 8 \<Longrightarrow> pres t' i s = pres t i s \<and> meta t' i (10 + s) = meta t i (10 + s)) \<Longrightarrow>
   rebuilt t' i f = rebuilt t i f"
  unfolding rebuilt_def by (rule foldl_cong) auto

lemma filterReset_fields [simp]:
  "keySize (filterReset t b f) = keySize t" "valueSize (filterReset t b f) = valueSize t"
  "bucket (filterReset t b f) = bucket t" "buckets (filterReset t b f) = buckets t"
  "mask (filterReset t b f) = mask t" "copyKey (filterReset t b f) = copyKey t"
  "copyValue (filterReset t b f) = copyValue t"
  by (simp_all add: filterReset_def)

lemma length_filterResetSlot [simp]: "length (filterResetSlot b f buf s) = length buf"
  by (simp add: filterResetSlot_def Let_def)

lemma length_filterReset_fold [simp]: "length (foldl (filterResetSlot b f) buf xs) = length buf"
  by (induction xs arbitrary: buf) simp_all

lemma length_filterReset [simp]: "length (buffer (filterReset t b f)) = length (buffer t)"
  by (simp add: filterReset_def)

lemma ok_filterReset [simp]: "Table_ok (filterReset t b f) = Table_ok t"
  by (simp add: Table_ok_def)

lemma bidx_filterReset [simp]: "bidx (filterReset t b f) h = bidx t h"
  by (simp add: bidx_def)

lemma meta_filterReset:
  assumes ok: "Table_ok t" and i: "i < buckets t" and f: "f < 8" and j: "j < 20" and B: "B = bucket t"
  shows "meta (filterReset t (i * B) f) i' j =
         (if i' = i \<and> j = f \<and> meta t i 8 = 0 \<and> meta t i f \<noteq> 0 then rebuilt t i f else meta t i' j)"
  using f j by (simp add: filterReset_eq [OF ok i f B] meta_putMeta [OF ok i])

lemma keyAt_filterReset:
  assumes ok: "Table_ok t" and i: "i < buckets t" and f: "f < 8" and s: "s < 8" and B: "B = bucket t"
  shows "keyAt (filterReset t (i * B) f) i' s = keyAt t i' s"
  using f by (simp add: filterReset_eq [OF ok i f B] keyAt_putMeta [OF ok _ s])

lemma valAt_filterReset:
  assumes ok: "Table_ok t" and i: "i < buckets t" and f: "f < 8" and s: "s < 8" and B: "B = bucket t"
  shows "valAt (filterReset t (i * B) f) i' s = valAt t i' s"
  using f by (simp add: filterReset_eq [OF ok i f B] valAt_putMeta [OF ok _ s])

lemma pres_filterReset:
  assumes ok: "Table_ok t" and i: "i < buckets t" and f: "f < 8" and B: "B = bucket t"
  shows "pres (filterReset t (i * B) f) i' s = pres t i' s"
  using f by (simp add: pres_def meta_filterReset [OF ok i f _ B])

lemma rebuilt_filterReset:
  assumes ok: "Table_ok t" and i: "i < buckets t" and f: "f < 8" and B: "B = bucket t"
  shows "rebuilt (filterReset t (i * B) f) i' f' = rebuilt t i' f'"
  using f by (intro rebuilt_cong) (simp add: pres_filterReset [OF ok i f B] meta_filterReset [OF ok i f _ B])

subsection \<open>Accessors after the eight resets that follow a counter reaching 0\<close>

lemma resetFold_fields [simp]:
  "keySize (foldl (\<lambda>t' f. filterReset t' b f) t fs) = keySize t"
  "valueSize (foldl (\<lambda>t' f. filterReset t' b f) t fs) = valueSize t"
  "bucket (foldl (\<lambda>t' f. filterReset t' b f) t fs) = bucket t"
  "buckets (foldl (\<lambda>t' f. filterReset t' b f) t fs) = buckets t"
  "mask (foldl (\<lambda>t' f. filterReset t' b f) t fs) = mask t"
  "copyKey (foldl (\<lambda>t' f. filterReset t' b f) t fs) = copyKey t"
  "copyValue (foldl (\<lambda>t' f. filterReset t' b f) t fs) = copyValue t"
  "length (buffer (foldl (\<lambda>t' f. filterReset t' b f) t fs)) = length (buffer t)"
  by (induction fs arbitrary: t; simp)+

lemma ok_resetFold [simp]: "Table_ok (foldl (\<lambda>t' f. filterReset t' b f) t fs) = Table_ok t"
  by (simp add: Table_ok_def)

lemma resetFold_meta:
  assumes ok: "Table_ok t" and i: "i < buckets t" and fs: "set fs \<subseteq> {..<8}" "distinct fs"
    and B: "B = bucket t" and j: "j < 20"
  shows "meta (foldl (\<lambda>t' f. filterReset t' (i * B) f) t fs) i' j =
         (if i' = i \<and> j \<in> set fs \<and> meta t i 8 = 0 \<and> meta t i j \<noteq> 0 then rebuilt t i j else meta t i' j)"
  using ok i fs B
proof (induction fs arbitrary: t)
  case Nil
  then show ?case by simp
next
  case (Cons f fs)
  let ?t1 = "filterReset t (i * B) f"
  have f: "f < 8" using Cons.prems by auto
  have ok1: "Table_ok ?t1" using Cons.prems by simp
  have i1: "i < buckets ?t1" using Cons.prems by simp
  have B1: "B = bucket ?t1" using Cons.prems by simp
  have fs: "set fs \<subseteq> {..<8}" "distinct fs" "f \<notin> set fs" using Cons.prems by auto
  note m1 = meta_filterReset [OF Cons.prems(1,2) f _ Cons.prems(5)]
  have r1: "rebuilt ?t1 i j = rebuilt t i j"
    by (rule rebuilt_filterReset [OF Cons.prems(1,2) f Cons.prems(5)])
  have c: "meta ?t1 i 8 = meta t i 8" using f by (simp add: m1)
  have "meta (foldl (\<lambda>t' f. filterReset t' (i * B) f) ?t1 fs) i' j =
        (if i' = i \<and> j \<in> set fs \<and> meta ?t1 i 8 = 0 \<and> meta ?t1 i j \<noteq> 0 then rebuilt ?t1 i j else meta ?t1 i' j)"
    by (rule Cons.IH [OF ok1 i1 fs(1,2) B1])
  then show ?case
    using fs(3) j by (auto simp: r1 c m1)
qed

lemma resetFold_keyAt:
  assumes ok: "Table_ok t" and i: "i < buckets t" and fs: "set fs \<subseteq> {..<8}"
    and B: "B = bucket t" and s: "s < 8"
  shows "keyAt (foldl (\<lambda>t' f. filterReset t' (i * B) f) t fs) i' s = keyAt t i' s"
  using ok i fs B
proof (induction fs arbitrary: t)
  case Nil
  then show ?case by simp
next
  case (Cons f fs)
  have f: "f < 8" using Cons.prems by auto
  have "keyAt (foldl (\<lambda>t' f. filterReset t' (i * B) f) (filterReset t (i * B) f) fs) i' s
        = keyAt (filterReset t (i * B) f) i' s"
    using Cons.prems by (intro Cons.IH) auto
  then show ?case by (simp add: keyAt_filterReset [OF Cons.prems(1,2) f s Cons.prems(4)])
qed

lemma resetFold_valAt:
  assumes ok: "Table_ok t" and i: "i < buckets t" and fs: "set fs \<subseteq> {..<8}"
    and B: "B = bucket t" and s: "s < 8"
  shows "valAt (foldl (\<lambda>t' f. filterReset t' (i * B) f) t fs) i' s = valAt t i' s"
  using ok i fs B
proof (induction fs arbitrary: t)
  case Nil
  then show ?case by simp
next
  case (Cons f fs)
  have f: "f < 8" using Cons.prems by auto
  have "valAt (foldl (\<lambda>t' f. filterReset t' (i * B) f) (filterReset t (i * B) f) fs) i' s
        = valAt (filterReset t (i * B) f) i' s"
    using Cons.prems by (intro Cons.IH) auto
  then show ?case by (simp add: valAt_filterReset [OF Cons.prems(1,2) f s Cons.prems(4)])
qed

lemma resetAll_fields [simp]:
  "keySize (resetAll t i) = keySize t" "valueSize (resetAll t i) = valueSize t"
  "bucket (resetAll t i) = bucket t" "buckets (resetAll t i) = buckets t"
  "mask (resetAll t i) = mask t" "copyKey (resetAll t i) = copyKey t"
  "copyValue (resetAll t i) = copyValue t"
  "length (buffer (resetAll t i)) = length (buffer t)"
  by (simp_all add: resetAll_def)

lemma ok_resetAll [simp]: "Table_ok (resetAll t i) = Table_ok t"
  by (simp add: Table_ok_def)

lemma bidx_resetAll [simp]: "bidx (resetAll t i) h = bidx t h"
  by (simp add: bidx_def)

lemma set_upt8: "set [0..<8] \<subseteq> {..<8}" "distinct [0..<8]"
  by auto

lemma meta_resetAll:
  assumes ok: "Table_ok t" and i: "i < buckets t" and j: "j < 20"
  shows "meta (resetAll t i) i' j =
           (if i' = i \<and> j < 8 \<and> meta t i 8 = 0 \<and> meta t i j \<noteq> 0 then rebuilt t i j else meta t i' j)"
  using resetFold_meta [OF ok i set_upt8 refl j, of i'] by (simp add: resetAll_def)

lemma keyAt_resetAll:
  assumes ok: "Table_ok t" and i: "i < buckets t" and s: "s < 8"
  shows "keyAt (resetAll t i) i' s = keyAt t i' s"
  using resetFold_keyAt [OF ok i set_upt8(1) refl s, of i'] by (simp add: resetAll_def)

lemma valAt_resetAll:
  assumes ok: "Table_ok t" and i: "i < buckets t" and s: "s < 8"
  shows "valAt (resetAll t i) i' s = valAt t i' s"
  using resetFold_valAt [OF ok i set_upt8(1) refl s, of i'] by (simp add: resetAll_def)

subsection \<open>Evaluation of the model on literal buffers\<close>

lemma rd_replicate: "rd (replicate n x) j = (if j < n then x else 0)"
  by (simp add: rd_def)

lemma rdo_replicate: "rdo (replicate n x) j = (if j < n then Some x else None)"
  by (simp add: rdo_def)

lemma rdo_update: "rdo (b[i := v]) j = (if j < length b then Some (if i = j then v else rd b j) else None)"
  by (auto simp: rdo_def rd_def)

lemma rd_Cons: "rd (x # xs) j = (case j of 0 \<Rightarrow> x | Suc j' \<Rightarrow> rd xs j')"
  by (auto simp: rd_def split: nat.splits)

lemma rd_Nil: "rd [] j = 0"
  by (simp add: rd_def)

lemma rdo_Cons: "rdo (x # xs) j = (case j of 0 \<Rightarrow> Some x | Suc j' \<Rightarrow> rdo xs j')"
  by (auto simp: rdo_def split: nat.splits)

lemma rdo_Nil: "rdo [] j = None"
  by (simp add: rdo_def)

lemma firstSlot_unfold:
  "firstSlot P = (if P 0 then 0 else if P 1 then 1 else if P 2 then 2 else if P 3 then 3
     else if P 4 then 4 else if P 5 then 5 else if P 6 then 6 else if P 7 then 7 else 8)"
  by (simp add: firstSlot_def upt8)

lemma copyN_unfold:
  "copyN n s sO t tO = (if n = 0 then t else copyN (n - 1) s (Suc sO) (t[tO := srcRead s t sO]) (Suc tO))"
  by (cases n) simp_all

lemma equal_unfold:
  "equal a aO b bO n = (if n = 0 then True else if rdo a aO \<noteq> rdo b bO then False
     else equal a (Suc aO) b (Suc bO) (n - 1))"
  by (cases n) simp_all

lemma zeroN_unfold:
  "zeroN n b off = (if n = 0 then b else zeroN (n - 1) (b[off := 0]) (Suc off))"
  by (cases n) simp_all

lemma zeroGroups_unfold:
  "zeroGroups n b off = (if n = 0 then b else zeroGroups (n - 1) (zeroN 4 b off) (off + 4))"
  by (cases n) simp_all

lemma push_bit_nat: "push_bit n (m::nat) = m * 2 ^ n"
  by (simp add: push_bit_eq_mult)

lemma drop_bit_nat: "drop_bit n (m::nat) = m div 2 ^ n"
  by (simp add: drop_bit_eq_div)

lemmas ev = Table_set_def Table_insert_def Let_def tagOf_def bucketOf_def f1Of_def f2Of_def
  SLOT_def firstSlot_unfold bitOf_def assign_def filterAdd_def copyKeyTo_def copyValueTo_def
  keyOffset_def valueOffset_def Table_new_def copy_def rd_update rdo_update rd_replicate rdo_replicate
  rd_Cons rdo_Cons rd_Nil rdo_Nil scan_def Hash_def HashLoop.simps tab_def E0_def key1_def
  copyN_unfold equal_unfold filterIncrementSecondPosition_def push_bit_nat drop_bit_nat
  h1Of_def h2Of_def setKey_def zeroN_unfold zeroGroups_unfold zero_def clearSlot_def
  filterDecrementSecondPosition_def filterReset_def filterResetSlot_def upt8 Table_unset_def
  vacate_def vacateFrom.simps

lemma shard8_eq:
  "shard8 = \<lparr>keySize = 4, valueSize = 0, bucket = 64, buckets = 2,
       copyKey = copy04, copyValue = copy00, mask = Suc 0,
       buffer = (replicate 128 0)
      [9 := 1, 10 := 0, 20 := 0, 21 := 0, 22 := 0, 23 := 0, 0 := 1, 9 := 3,
       11 := 1, 24 := 1, 25 := 0, 26 := 0, 27 := 0, 0 := 3, 9 := 7, 12 := 2,
       28 := 2, 29 := 0, 30 := 0, 31 := 0, 0 := 7, 9 := 15, 13 := 3,
       32 := 3, 33 := 0, 34 := 0, 35 := 0, 0 := 15, 9 := 31, 14 := 4,
       36 := 4, 37 := 0, 38 := 0, 39 := 0, 0 := 31, 9 := 63, 15 := 5,
       40 := 5, 41 := 0, 42 := 0, 43 := 0, 0 := 63, 9 := 127, 16 := 6,
       44 := 6, 45 := 0, 46 := 0, 47 := 0, 0 := 127, 9 := 255, 17 := 7,
       48 := 7, 49 := 0, 50 := 0, 51 := 0, 0 := 255]\<rparr>"
  by (simp add: shard8_def ev)

lemma hash16: "h1Of 16 = 1048576" "h2Of 16 = 1"
  by (simp_all add: ev)

lemma ok_shard8: "Table_ok shard8"
  by (simp add: shard8_eq Table_ok_def bucketSize_def BUCKETS_MAX_def P2_def copierFor_def copy_def)

subsection \<open>Bits of a tag\<close>

lemma f1Of_lt: "f1Of tag < 8"
proof -
  have "drop_bit 4 tag AND 7 \<le> (7 :: byte)" by (rule word_and_le1)
  then have "unat (drop_bit 4 tag AND 7) \<le> unat (7 :: byte)" by (simp only: word_le_nat_alt)
  then show ?thesis by (simp add: f1Of_def)
qed

lemma low3_lt: "unat (tag AND 7) < 8" for tag :: byte
proof -
  have "tag AND 7 \<le> (7 :: byte)" by (rule word_and_le1)
  then have "unat (tag AND 7) \<le> unat (7 :: byte)" by (simp only: word_le_nat_alt)
  then show ?thesis by simp
qed

lemma bitOf_nz: "s < 8 \<Longrightarrow> bitOf s \<noteq> 0"
proof -
  assume "s < 8"
  then have "s \<in> {0, 1, 2, 3, 4, 5, 6, 7}" by auto
  then show ?thesis by (auto simp: bitOf_def)
qed

lemma or_and_bit: "(x OR b) AND b = (b :: byte)"
  by (simp add: bit_eq_iff bit_and_iff bit_or_iff)

lemma byte_255: "x < 255 \<or> x = (255 :: byte)"
proof -
  have "unat x < 2 ^ LENGTH(8)" by (rule unsigned_less)
  then have "unat x < 256" by simp
  then have "x \<le> 255" by (simp add: word_le_nat_alt)
  then show ?thesis by (simp add: order.order_iff_strict)
qed

lemma f2Of_nz: "f2Of tag \<noteq> 0"
  by (simp add: f2Of_def bitOf_nz low3_lt)

lemmas acc = meta_putMeta keyAt_putMeta valAt_putMeta meta_slotWrite keyAt_slotWrite valAt_slotWrite
  keyAt_putKey_Other_same valAt_putVal_Other_same

text \<open>The result of \<open>set\<close> on the path that fills a free slot of the second position.\<close>

lemma insert_second:
  fixes tag f2 :: byte and key val :: buffer and kO vO :: nat
  assumes ok: "Table_ok t" and i1: "i1 < buckets t" and i2: "i2 < buckets t" and ne: "i1 \<noteq> i2"
    and s: "s < 8" and f: "f < 8" and v: "vO + valueSize t \<le> length val"
    and B: "B = bucket t"
  defines "t' \<equiv> filterIncrementSecondPosition
      (filterAdd (assign t (i2 * B) tag s (Other key) kO (Other val) vO) (i1 * B) f f2) (i1 * B)"
  shows "Table_ok t'" and "bucket t' = bucket t"
    and "meta t' i2 9 = meta t i2 9 OR bitOf s"
    and "meta t' i2 (10 + s) = tag"
    and "keyAt t' i2 s = slice key kO (keySize t)"
    and "valAt t' i2 s = slice val vO (valueSize t)"
    and "meta t' i1 f = meta t i1 f OR f2"
    and "meta t' i1 8 = (if meta t i1 8 < 255 then meta t i1 8 + 1 else meta t i1 8)"
    and "meta t' i2 8 = meta t i2 8"
    and "keySize t' = keySize t" and "valueSize t' = valueSize t"
  using ok i1 i2 ne s f v
  by (simp_all add: t'_def B assign_eq filterAdd_eq filterIncrementSecondPosition_eq acc)


lemma Table_set_miss:
  assumes "rd (buffer t) (bucketOf t h1 + f1Of (tagOf h1)) AND f2Of (tagOf h1) = 0
           \<or> (\<not> scan t (bucketOf t h1) (tagOf h1) key kO < 8 \<and> \<not> scan t (bucketOf t h2) (tagOf h1) key kO < 8)"
  shows "Table_set E t h1 h2 key kO val vO = Table_insert E t h1 h2 key kO val vO"
  using assms by (auto simp: Table_set_def Let_def)

text \<open>
  C3 (amended). When \<open>set\<close> finds the key nowhere, the first-position bucket \<open>b1\<close> full and
  a free slot \<open>s4\<close> in the second-position bucket \<open>b2\<close>, it returns 0, the slot \<open>s4\<close> of
  \<open>b2\<close> is occupied and holds the tag, the key and the value, the filter bit is set in
  \<open>b1\<close>, and the second-position counter that goes up by one is byte 8 of \<open>b1\<close>, the
  element's first-position bucket (it stays at 255 once saturated); byte 8 of \<open>b2\<close>, where
  the element now resides, is unchanged.
\<close>

theorem set_second_position:
  assumes ok: "Table_ok t"
    and v: "vO + valueSize t \<le> length val"
    and miss: "rd (buffer t) (bucketOf t h1 + f1Of (tagOf h1)) AND f2Of (tagOf h1) = 0
           \<or> (\<not> scan t (bucketOf t h1) (tagOf h1) key kO < 8 \<and> \<not> scan t (bucketOf t h2) (tagOf h1) key kO < 8)"
    and full: "\<not> SLOT (rd (buffer t) (bucketOf t h1 + 9)) < 8"
    and free: "SLOT (rd (buffer t) (bucketOf t h2 + 9)) < 8"
  shows "fst (Table_set E t h1 h2 key kO val vO) = Inr 0
    \<and> rd (buffer (snd (Table_set E t h1 h2 key kO val vO))) (bucketOf t h2 + 9)
        AND bitOf (SLOT (rd (buffer t) (bucketOf t h2 + 9))) \<noteq> 0
    \<and> rd (buffer (snd (Table_set E t h1 h2 key kO val vO)))
         (bucketOf t h2 + 9 + 1 + SLOT (rd (buffer t) (bucketOf t h2 + 9))) = tagOf h1
    \<and> slice (buffer (snd (Table_set E t h1 h2 key kO val vO)))
         (keyOffset t (bucketOf t h2) (SLOT (rd (buffer t) (bucketOf t h2 + 9)))) (keySize t)
       = slice key kO (keySize t)
    \<and> slice (buffer (snd (Table_set E t h1 h2 key kO val vO)))
         (valueOffset t (bucketOf t h2) (SLOT (rd (buffer t) (bucketOf t h2 + 9)))) (valueSize t)
       = slice val vO (valueSize t)
    \<and> rd (buffer (snd (Table_set E t h1 h2 key kO val vO))) (bucketOf t h1 + f1Of (tagOf h1))
        AND f2Of (tagOf h1) \<noteq> 0
    \<and> rd (buffer (snd (Table_set E t h1 h2 key kO val vO))) (bucketOf t h1 + 8)
       = (if rd (buffer t) (bucketOf t h1 + 8) < 255 then rd (buffer t) (bucketOf t h1 + 8) + 1 else 255)
    \<and> rd (buffer (snd (Table_set E t h1 h2 key kO val vO))) (bucketOf t h2 + 8)
       = rd (buffer t) (bucketOf t h2 + 8)"
proof -
  define i1 where "i1 = bidx t h1"
  define i2 where "i2 = bidx t h2"
  define s where "s = SLOT (rd (buffer t) (bucketOf t h2 + 9))"
  define t' where "t' = filterIncrementSecondPosition
      (filterAdd (assign t (i2 * bucket t) (tagOf h1) s (Other key) kO (Other val) vO)
         (i1 * bucket t) (f1Of (tagOf h1)) (f2Of (tagOf h1))) (i1 * bucket t)"
  have b: "bucketOf t h1 = i1 * bucket t" "bucketOf t h2 = i2 * bucket t"
    by (simp_all add: bucketOf_bidx i1_def i2_def)
  have i: "i1 < buckets t" "i2 < buckets t" by (simp_all add: i1_def i2_def bidx_lt [OF ok])
  have ne: "i1 \<noteq> i2" using full free by (auto simp: b)
  have s: "s < 8" using free by (simp add: s_def)
  have r: "Table_set E t h1 h2 key kO val vO = (Inr 0, t')"
    using full free
    by (simp add: Table_set_miss [OF miss] Table_insert_def Let_def t'_def b s_def)
  note p = insert_second [OF ok i ne s f1Of_lt v refl, of "tagOf h1" key kO "tagOf h1" "f2Of (tagOf h1)",
      folded t'_def]
  have m: "rd (buffer t') (j1 * bucket t + j) = meta t' j1 j" for j1 j
    by (simp add: meta_def p(2))
  have m0: "rd (buffer t) (j1 * bucket t + j) = meta t j1 j" for j1 j
    by (simp add: meta_def)
  have e: "i2 * bucket t + 9 + 1 + s = i2 * bucket t + (10 + s)" by simp
  have k: "slice (buffer t') (keyOffset t (i2 * bucket t) s) (keySize t) = keyAt t' i2 s"
    by (simp add: keyAt_def p(2,10,11) keyOffset_def)
  have w: "slice (buffer t') (valueOffset t (i2 * bucket t) s) (valueSize t) = valAt t' i2 s"
    by (simp add: valAt_def p(2,10,11) valueOffset_def)
  have c: "meta t i1 8 < 255 \<or> meta t i1 8 = 255" by (rule byte_255)
  have sm: "SLOT (rd (buffer t) (bucketOf t h2 + 9)) = s" by (simp add: s_def)
  show ?thesis
    unfolding r fst_conv snd_conv sm
    unfolding b e
    unfolding m m0 k w
    using c by (auto simp: p or_and_bit bitOf_nz [OF s] f2Of_nz)
qed


theorem set_second_position_witness:
  "Table_ok shard8 \<and> 0 + valueSize shard8 \<le> length ([] :: buffer)
   \<and> rd (buffer shard8) (bucketOf shard8 (h1Of 16) + f1Of (tagOf (h1Of 16))) AND f2Of (tagOf (h1Of 16)) = 0
   \<and> \<not> SLOT (rd (buffer shard8) (bucketOf shard8 (h1Of 16) + 9)) < 8
   \<and> SLOT (rd (buffer shard8) (bucketOf shard8 (h2Of 16) + 9)) < 8
   \<and> fst (Table_set E0 shard8 (h1Of 16) (h2Of 16) (key1 16) 0 [] 0) = Inr 0
   \<and> rd (buffer (snd (Table_set E0 shard8 (h1Of 16) (h2Of 16) (key1 16) 0 [] 0))) (bucketOf shard8 (h1Of 16) + 8)
       = (if rd (buffer shard8) (bucketOf shard8 (h1Of 16) + 8) < 255
          then rd (buffer shard8) (bucketOf shard8 (h1Of 16) + 8) + 1 else 255)"
proof -
  have v: "0 + valueSize shard8 \<le> length ([] :: buffer)" by (simp add: shard8_eq)
  have miss: "rd (buffer shard8) (bucketOf shard8 (h1Of 16) + f1Of (tagOf (h1Of 16))) AND f2Of (tagOf (h1Of 16)) = 0"
    by (simp add: hash16 shard8_eq ev)
  have full: "\<not> SLOT (rd (buffer shard8) (bucketOf shard8 (h1Of 16) + 9)) < 8"
    by (simp add: hash16 shard8_eq ev)
  have free: "SLOT (rd (buffer shard8) (bucketOf shard8 (h2Of 16) + 9)) < 8"
    by (simp add: hash16 shard8_eq ev)
  from set_second_position [OF ok_shard8 v disjI1 [OF miss] full free, of E0 "key1 16" 0]
  show ?thesis using ok_shard8 v miss full free by blast
qed

text \<open>
  C3 as stated fails: after the keys 0..7 have filled bucket 0, the key 16 (first position
  bucket 0, second position bucket 1) goes to slot 0 of bucket 1; the counter of bucket 1
  (byte 64 + 8) is still 0 and the counter of bucket 0 (byte 8) is 1.
\<close>

theorem set_second_position_counterexample:
  "\<not> SLOT (rd (buffer shard8) (bucketOf shard8 (h1Of 16) + 9)) < 8
   \<and> SLOT (rd (buffer shard8) (bucketOf shard8 (h2Of 16) + 9)) = 0
   \<and> bucketOf shard8 (h1Of 16) = 0 \<and> bucketOf shard8 (h2Of 16) = 64
   \<and> fst (Table_set E0 shard8 (h1Of 16) (h2Of 16) (key1 16) 0 [] 0) = Inr 0
   \<and> rd (buffer (snd (Table_set E0 shard8 (h1Of 16) (h2Of 16) (key1 16) 0 [] 0))) (64 + 9) = 1
   \<and> rd (buffer shard8) (64 + 8) = 0
   \<and> rd (buffer (snd (Table_set E0 shard8 (h1Of 16) (h2Of 16) (key1 16) 0 [] 0))) (64 + 8) = 0
   \<and> rd (buffer shard8) 8 = 0
   \<and> rd (buffer (snd (Table_set E0 shard8 (h1Of 16) (h2Of 16) (key1 16) 0 [] 0))) 8 = 1"
  by (simp add: hash16 shard8_eq ev)

end
